theory Spec2Isabelle
  imports Main "HOL-Library.Sublist" "HOL-Library.AList"
begin

section \<open>Python strings\<close>

text \<open>
  A Python \<open>str\<close> is modelled as a \<open>string\<close> whose characters are the code points of
  the text; the model covers texts whose code points are below 256. \<open>isspace\<close> is the
  whitespace test shared by \<open>str.strip\<close> and by \<open>\\s\<close> of the \<open>re\<close> module on that
  range: tab, line feed, vertical tab, form feed, carriage return, the four separators
  28 to 31, the space, NEL (133) and the no-break space (160).
\<close>

abbreviation NL :: char where
  "NL \<equiv> CHR 0x0A"

definition isspace :: "char \<Rightarrow> bool" where
  "isspace c = (c \<in> {CHR 0x09, CHR 0x0A, CHR 0x0B, CHR 0x0C, CHR 0x0D,
                       CHR 0x1C, CHR 0x1D, CHR 0x1E, CHR 0x1F, CHR 0x20,
                       CHR 0x85, CHR 0xA0})"

text \<open>\<open>\\d\<close> on that range: the ten decimal digits, code points 48 to 57.\<close>

definition isdigit :: "char \<Rightarrow> bool" where
  "isdigit c = (48 \<le> (of_char c :: nat) \<and> (of_char c :: nat) \<le> 57)"

text \<open>\<open>s.strip()\<close>\<close>

definition strip :: "string \<Rightarrow> string" where
  "strip s = rev (dropWhile isspace (rev (dropWhile isspace s)))"

text \<open>\<open>s.split(sep)\<close> for a one-character separator: never an empty list.\<close>

fun split_on :: "char \<Rightarrow> string \<Rightarrow> string list" where
  "split_on sep [] = [[]]"
| "split_on sep (c # cs) =
     (if c = sep then [] # split_on sep cs
      else (case split_on sep cs of
              [] \<Rightarrow> [[c]]
            | w # ws \<Rightarrow> (c # w) # ws))"

text \<open>\<open>s.split('\\n', 1)\<close>: at most one split, at the first line feed.\<close>

definition split_first_line :: "string \<Rightarrow> string list" where
  "split_first_line s =
     (if NL \<in> set s then [takeWhile (\<lambda>c. c \<noteq> NL) s, tl (dropWhile (\<lambda>c. c \<noteq> NL) s)]
      else [s])"

text \<open>\<open>s.split('\\n\\n')\<close>: the separators are found left to right, without overlap.\<close>

fun split_blank :: "string \<Rightarrow> string list" where
  "split_blank [] = [[]]"
| "split_blank [c] = [[c]]"
| "split_blank (c # d # cs) =
     (if c = NL \<and> d = NL then [] # split_blank cs
      else (case split_blank (d # cs) of
              [] \<Rightarrow> [[c]]
            | w # ws \<Rightarrow> (c # w) # ws))"

text \<open>\<open>str(n)\<close> and \<open>int(s)\<close> on decimal numerals.\<close>

definition digit_char :: "nat \<Rightarrow> char" where
  "digit_char d = char_of (48 + d)"

fun str_nat :: "nat \<Rightarrow> string" where
  "str_nat n = (if n < 10 then [digit_char n] else str_nat (n div 10) @ [digit_char (n mod 10)])"

declare str_nat.simps [simp del]

definition int_of_str :: "string \<Rightarrow> nat" where
  "int_of_str s = foldl (\<lambda>a c. 10 * a + (of_char c - 48)) 0 s"

section \<open>Regular expressions\<close>

text \<open>
  The patterns of the program are written with backtracking matchers in continuation
  style, in the order in which \<open>re\<close> tries the alternatives: a matcher takes the text
  still to be read and a continuation for the rest of the pattern, and gives the first
  result the continuation accepts. A greedy repetition offers the longest run first, a
  lazy one the shortest; the continuation of a repetition also receives the text the
  repetition consumed (its group).
\<close>

text \<open>A literal.\<close>

definition lit :: "string \<Rightarrow> string \<Rightarrow> (string \<Rightarrow> 'a option) \<Rightarrow> 'a option" where
  "lit p s k = (if prefix p s then k (drop (length p) s) else None)"

text \<open>One character of a class.\<close>

definition one :: "(char \<Rightarrow> bool) \<Rightarrow> string \<Rightarrow> (string \<Rightarrow> 'a option) \<Rightarrow> 'a option" where
  "one P s k = (case s of [] \<Rightarrow> None | c # cs \<Rightarrow> if P c then k cs else None)"

text \<open>\<open>c?\<close>: with the character first, then without.\<close>

definition opt :: "char \<Rightarrow> string \<Rightarrow> (string \<Rightarrow> 'a option) \<Rightarrow> 'a option" where
  "opt x s k =
     (case s of
        [] \<Rightarrow> k []
      | c # cs \<Rightarrow>
          if c = x then (case k cs of Some r \<Rightarrow> Some r | None \<Rightarrow> k (c # cs))
          else k (c # cs))"

text \<open>\<open>X*\<close> and \<open>X+\<close> on a character class \<open>X\<close>; \<open>acc\<close> is the text consumed so far.\<close>

fun greedy_star ::
  "(char \<Rightarrow> bool) \<Rightarrow> string \<Rightarrow> string \<Rightarrow> (string \<Rightarrow> string \<Rightarrow> 'a option) \<Rightarrow> 'a option" where
  "greedy_star P acc [] k = k acc []"
| "greedy_star P acc (c # cs) k =
     (if P c then
        (case greedy_star P (acc @ [c]) cs k of
           Some r \<Rightarrow> Some r
         | None \<Rightarrow> k acc (c # cs))
      else k acc (c # cs))"

definition greedy_plus ::
  "(char \<Rightarrow> bool) \<Rightarrow> string \<Rightarrow> (string \<Rightarrow> string \<Rightarrow> 'a option) \<Rightarrow> 'a option" where
  "greedy_plus P s k =
     (case s of [] \<Rightarrow> None | c # cs \<Rightarrow> if P c then greedy_star P [c] cs k else None)"

text \<open>\<open>X*?\<close> on a character class.\<close>

fun lazy_star ::
  "(char \<Rightarrow> bool) \<Rightarrow> string \<Rightarrow> string \<Rightarrow> (string \<Rightarrow> string \<Rightarrow> 'a option) \<Rightarrow> 'a option" where
  "lazy_star P acc [] k = k acc []"
| "lazy_star P acc (c # cs) k =
     (case k acc (c # cs) of
        Some r \<Rightarrow> Some r
      | None \<Rightarrow> if P c then lazy_star P (acc @ [c]) cs k else None)"

text \<open>
  \<open>re.search\<close>: the pattern is tried at every position from the left, the end of the
  text included. \<open>search_bol\<close> is the search for a pattern that begins with \<open>^\<close> under
  \<open>re.MULTILINE\<close>: it is tried at the start of the text and after every line feed.
\<close>

fun re_search :: "(string \<Rightarrow> 'a option) \<Rightarrow> string \<Rightarrow> 'a option" where
  "re_search m [] = m []"
| "re_search m (c # cs) =
     (case m (c # cs) of Some r \<Rightarrow> Some r | None \<Rightarrow> re_search m cs)"

fun search_bol :: "(string \<Rightarrow> 'a option) \<Rightarrow> bool \<Rightarrow> string \<Rightarrow> 'a option" where
  "search_bol m bol [] = (if bol then m [] else None)"
| "search_bol m bol (c # cs) =
     (case (if bol then m (c # cs) else None) of
        Some r \<Rightarrow> Some r
      | None \<Rightarrow> search_bol m (c = NL) cs)"

text \<open>\<open>$\<close> without \<open>re.MULTILINE\<close>: the end of the text, or just before its last line feed.\<close>

definition at_dollar :: "string \<Rightarrow> bool" where
  "at_dollar s = (s = [] \<or> s = [NL])"

section \<open>The story: the flowables handed to the renderer\<close>

datatype style = TitleStyle | SubtitleStyle | HeadingStyle | SubheadingStyle
  | NormalStyle | BulletStyle | TOCStyle

text \<open>
  \<open>ListFlowable\<close> carries the texts of its items, each a \<open>ListItem\<close> holding one
  paragraph in the bullet style. \<open>Spacer\<close> carries its height in tenths of an inch.
\<close>

datatype flowable =
    Paragraph string style
  | ListFlowable "string list"
  | Table "string list list"
  | Spacer nat
  | PageBreak

section \<open>The functional requirements table\<close>

definition header_row :: "string list" where
  "header_row = [''ID'', ''Requirement Description'', ''Priority'', ''Dependencies'']"

definition placeholder_row :: "string list" where
  "placeholder_row = [''FR01'', ''Placeholder requirement'', ''High'', ''-'']"

text \<open>The loop over the lines of \<open>add_functional_requirements_table\<close>, \<open>rows\<close> threaded.\<close>

fun table_rows :: "string list \<Rightarrow> string list list \<Rightarrow> string list list" where
  "table_rows [] rows = rows"
| "table_rows (l # ls) rows =
     (let line = strip l in
      if prefix ''FR'' line \<and> CHR ''|'' \<in> set line then
        (let cells = map strip (split_on (CHR ''|'') line) in
         if length cells \<ge> 4 then table_rows ls (rows @ [take 4 cells])
         else table_rows ls rows)
      else if prefix ''ID'' line \<and> CHR ''|'' \<in> set line then table_rows ls rows
      else table_rows ls rows)"

definition add_functional_requirements_table :: "string \<Rightarrow> flowable list \<Rightarrow> flowable list" where
  "add_functional_requirements_table content story =
     (let rows = table_rows (split_on NL content) [header_row];
          rows' = (if length rows = 1 then rows @ [placeholder_row] else rows)
      in story @ [Table rows'])"

text \<open>The table as the specification words it: which lines are data rows, and their cells.\<close>

definition is_data_row :: "string \<Rightarrow> bool" where
  "is_data_row l =
     (prefix ''FR'' (strip l) \<and> CHR ''|'' \<in> set (strip l)
      \<and> length (map strip (split_on (CHR ''|'') (strip l))) \<ge> 4)"

definition row_cells :: "string \<Rightarrow> string list" where
  "row_cells l = take 4 (map strip (split_on (CHR ''|'') (strip l)))"

definition data_rows :: "string \<Rightarrow> string list list" where
  "data_rows content = map row_cells (filter is_data_row (split_on NL content))"

section \<open>Content formatting\<close>

text \<open>The test for a bullet list: \<open>^\\s*[\\-\\*]\\s\<close>, tried at a line start.\<close>

definition bullet_pattern :: "string \<Rightarrow> unit option" where
  "bullet_pattern s =
     greedy_star isspace [] s (\<lambda>w r.
       one (\<lambda>c. c = CHR ''-'' \<or> c = CHR ''*'') r (\<lambda>r.
         one isspace r (\<lambda>r. Some ())))"

text \<open>
  The loop over the lines in the bullet branch of \<open>add_content_with_formatting\<close>, with
  the two buffers \<open>items\<close> and \<open>paragraphs\<close> and the story threaded through it; the base
  case is what follows the loop.
\<close>

fun format_lines ::
  "string list \<Rightarrow> string list \<Rightarrow> string list \<Rightarrow> flowable list \<Rightarrow> flowable list" where
  "format_lines [] items paragraphs story =
     (let story1 = (if items \<noteq> [] then story @ [ListFlowable items] else story)
      in if paragraphs \<noteq> [] then story1 @ map (\<lambda>p. Paragraph p NormalStyle) paragraphs
         else story1)"
| "format_lines (l # ls) items paragraphs story =
     (let line = strip l in
      if line = [] then format_lines ls items paragraphs story
      else if prefix ''-'' line \<or> prefix ''*'' line then
        (let bullet_text = strip (tl line) in
         if paragraphs \<noteq> [] then
           format_lines ls (items @ [bullet_text]) []
             (story @ map (\<lambda>p. Paragraph p NormalStyle) paragraphs)
         else format_lines ls (items @ [bullet_text]) paragraphs story)
      else
        (if items \<noteq> [] then
           format_lines ls [] (paragraphs @ [line]) (story @ [ListFlowable items])
         else format_lines ls items (paragraphs @ [line]) story))"

definition add_content_with_formatting :: "string \<Rightarrow> flowable list \<Rightarrow> flowable list" where
  "add_content_with_formatting content story =
     (if search_bol bullet_pattern True content \<noteq> None then
        format_lines (split_on NL content) [] [] story
      else
        story @ map (\<lambda>p. Paragraph (strip p) NormalStyle)
                  (filter (\<lambda>p. strip p \<noteq> []) (split_blank content)))"

section \<open>Title and sections\<close>

text \<open>\<open>Product Requirements Document:?\\s*([^\\n]+)\<close>, giving group 1.\<close>

definition project_name_pattern :: "string \<Rightarrow> string option" where
  "project_name_pattern s =
     lit ''Product Requirements Document'' s (\<lambda>r.
       opt (CHR '':'') r (\<lambda>r.
         greedy_star isspace [] r (\<lambda>w r.
           greedy_plus (\<lambda>c. c \<noteq> NL) r (\<lambda>g rest. Some g))))"

definition extract_project_name :: "string \<Rightarrow> string" where
  "extract_project_name content =
     (case re_search project_name_pattern content of
        Some g \<Rightarrow> strip g
      | None \<Rightarrow> ''Project Requirements Document'')"

definition titles :: "(string \<times> string) list" where
  "titles =
     [(''1'', ''Introduction''),
      (''2'', ''Goals and Objectives''),
      (''3'', ''User Personas and Roles''),
      (''4'', ''Functional Requirements''),
      (''5'', ''Non-Functional Requirements''),
      (''6'', ''User Interface (UI) / User Experience (UX) Considerations''),
      (''7'', ''Data Requirements''),
      (''8'', ''System Architecture & Technical Considerations''),
      (''9'', ''Release Criteria & Success Metrics''),
      (''10'', ''Timeline & Milestones''),
      (''11'', ''Team Structure''),
      (''12'', ''User Stories''),
      (''13'', ''Cost Estimation''),
      (''14'', ''Open Issues & Future Considerations''),
      (''15'', ''Appendix''),
      (''16'', ''Points Requiring Further Clarification'')]"

definition get_default_section_title :: "string \<Rightarrow> string" where
  "get_default_section_title section_num =
     (case map_of titles section_num of
        Some t \<Rightarrow> t
      | None \<Rightarrow> ''Section '' @ section_num)"

text \<open>\<open>{n}\\.\\s+\<close> at the start of a text: the first alternative of the lookahead.\<close>

definition marker :: "nat \<Rightarrow> string \<Rightarrow> bool" where
  "marker n s =
     (lit (str_nat n @ ''.'') s (\<lambda>r. greedy_plus isspace r (\<lambda>w r. Some ())) \<noteq> None)"

text \<open>
  \<open>{i}\\.\\s+{re.escape(section_title)}(.*?)(?={i+1}\\.\\s+|$)\<close> under \<open>re.DOTALL\<close>,
  giving group 1.
\<close>

definition strict_pattern :: "nat \<Rightarrow> string \<Rightarrow> string \<Rightarrow> string option" where
  "strict_pattern i section_title s =
     lit (str_nat i @ ''.'') s (\<lambda>r.
       greedy_plus isspace r (\<lambda>w r.
         lit section_title r (\<lambda>r.
           lazy_star (\<lambda>c. True) [] r (\<lambda>g rest.
             if marker (i + 1) rest \<or> at_dollar rest then Some g else None))))"

text \<open>\<open>{i}\\.\\s+(.*?)(?={i+1}\\.\\s+|$)\<close> under \<open>re.DOTALL\<close>, giving group 0.\<close>

definition simple_pattern :: "nat \<Rightarrow> string \<Rightarrow> string option" where
  "simple_pattern i s =
     lit (str_nat i @ ''.'') s (\<lambda>r.
       greedy_plus isspace r (\<lambda>w r.
         lazy_star (\<lambda>c. True) [] r (\<lambda>g rest.
           if marker (i + 1) rest \<or> at_dollar rest then Some (str_nat i @ ''.'' @ w @ g)
           else None)))"

definition no_content :: string where
  "no_content = ''No content provided for this section.''"

text \<open>The body of the first loop of \<open>parse_and_add_content\<close>: the text kept for section \<open>i\<close>.\<close>

definition section_text :: "nat \<Rightarrow> string \<Rightarrow> string" where
  "section_text i content =
     (let section_title = get_default_section_title (str_nat i) in
      case re_search (strict_pattern i section_title) content of
        Some g \<Rightarrow> str_nat i @ ''. '' @ section_title @ g
      | None \<Rightarrow>
          (case re_search (simple_pattern i) content of
             Some g0 \<Rightarrow> g0
           | None \<Rightarrow> str_nat i @ ''. '' @ section_title @ [NL, NL] @ no_content))"

text \<open>The dictionary \<open>sections\<close> after the first loop, in insertion order.\<close>

definition find_sections :: "string \<Rightarrow> (string \<times> string) list" where
  "find_sections content =
     fold (\<lambda>i sections. AList.update (str_nat i) (section_text i content) sections)
       [1..<17] []"

text \<open>\<open>{section_num}\\.\\s+(.*?)(?=\\n|$)\<close> at the start of the section text.\<close>

definition title_pattern :: "string \<Rightarrow> string \<Rightarrow> string option" where
  "title_pattern section_num s =
     lit (section_num @ ''.'') s (\<lambda>r.
       greedy_plus isspace r (\<lambda>w r.
         lazy_star (\<lambda>c. c \<noteq> NL) [] r (\<lambda>g rest.
           if prefix [NL] rest \<or> at_dollar rest then Some g else None)))"

definition section_title_of :: "string \<Rightarrow> string \<Rightarrow> string" where
  "section_title_of section_num section_content =
     (case title_pattern section_num section_content of
        Some g \<Rightarrow> g
      | None \<Rightarrow> get_default_section_title section_num)"

text \<open>The text after the title line, trimmed; \<open>None\<close> when there is no second line.\<close>

definition content_text :: "string \<Rightarrow> string option" where
  "content_text section_content =
     (let lines = split_first_line section_content in
      if length lines > 1 then Some (strip (lines ! 1)) else None)"

text \<open>The body of the second loop: the heading, the formatted body, the spacer.\<close>

definition process_section :: "string \<Rightarrow> string \<Rightarrow> flowable list \<Rightarrow> flowable list" where
  "process_section section_num section_content story =
     (let section_title = section_title_of section_num section_content;
          story1 = story @ [Paragraph (section_num @ ''. '' @ section_title) HeadingStyle];
          story2 = (case content_text section_content of
                      Some t \<Rightarrow> if t \<noteq> [] then add_content_with_formatting t story1 else story1
                    | None \<Rightarrow> story1)
      in story2 @ [Spacer 2])"

text \<open>
  The keys come from the dictionary itself, sorted by their value as numbers, so the
  lookup always finds the section.
\<close>

definition parse_and_add_content :: "string \<Rightarrow> flowable list \<Rightarrow> flowable list" where
  "parse_and_add_content content story =
     (let sections = find_sections content in
      fold (\<lambda>section_num st.
              case map_of sections section_num of
                Some section_content \<Rightarrow> process_section section_num section_content st
              | None \<Rightarrow> st)
        (sort_key int_of_str (map fst sections)) story)"

text \<open>The title and the body of section \<open>i\<close> as the second loop reads them.\<close>

definition section_title :: "nat \<Rightarrow> string \<Rightarrow> string" where
  "section_title i content = section_title_of (str_nat i) (section_text i content)"

definition section_body :: "nat \<Rightarrow> string \<Rightarrow> string" where
  "section_body i content =
     (case content_text (section_text i content) of Some t \<Rightarrow> t | None \<Rightarrow> [])"

section \<open>The document\<close>

text \<open>The date is read from the clock; here it is the argument \<open>date_str\<close>.\<close>

definition create_cover_page :: "string \<Rightarrow> string \<Rightarrow> flowable list \<Rightarrow> flowable list" where
  "create_cover_page project_name date_str story =
     story @ [Paragraph ''Product Requirements Document:'' TitleStyle,
              Paragraph project_name SubtitleStyle,
              Spacer 2,
              Paragraph (''Generated on: '' @ date_str) NormalStyle,
              Spacer 10]"

definition toc_entries :: "string list" where
  "toc_entries =
     [''Introduction'',
      ''Goals and Objectives'',
      ''User Personas and Roles'',
      ''Functional Requirements'',
      ''Non-Functional Requirements'',
      ''User Interface (UI) / User Experience (UX) Considerations'',
      ''Data Requirements'',
      ''System Architecture & Technical Considerations'',
      ''Release Criteria & Success Metrics'',
      ''Timeline & Milestones'',
      ''Team Structure'',
      ''User Stories'',
      ''Cost Estimation'',
      ''Open Issues & Future Considerations'',
      ''Appendix'',
      ''Points Requiring Further Clarification'']"

definition create_table_of_contents :: "flowable list \<Rightarrow> flowable list" where
  "create_table_of_contents story =
     story @ [Paragraph ''Table of Contents'' SubtitleStyle, Spacer 2]
       @ map (\<lambda>(i, entry). Paragraph (str_nat i @ ''. '' @ entry) TOCStyle)
           (zip [1..<Suc (length toc_entries)] toc_entries)"

text \<open>\<open>generate\<close>, up to the story it hands to the renderer.\<close>

definition generate :: "string \<Rightarrow> string \<Rightarrow> flowable list \<Rightarrow> flowable list" where
  "generate content date_str story =
     (let project_name = extract_project_name content;
          story1 = create_cover_page project_name date_str story;
          story2 = create_table_of_contents story1;
          story3 = story2 @ [PageBreak]
      in parse_and_add_content content story3)"

section \<open>The older section and subsection extraction\<close>

text \<open>
  The first entry of \<open>section_patterns\<close> in \<open>extract_sections\<close>:
  \<open>1\\.\\s+Introduction(.*?)(?=2\\.\\s+Goals|$)\<close> under \<open>re.DOTALL\<close>, giving group 0.
\<close>

definition first_section_pattern :: "string \<Rightarrow> string option" where
  "first_section_pattern s =
     lit ''1.'' s (\<lambda>r.
       greedy_plus isspace r (\<lambda>w r.
         lit ''Introduction'' r (\<lambda>r.
           lazy_star (\<lambda>c. True) [] r (\<lambda>g rest.
             if lit ''2.'' rest (\<lambda>r. greedy_plus isspace r (\<lambda>w r. lit ''Goals'' r (\<lambda>r. Some ())))
                  \<noteq> None
                \<or> at_dollar rest
             then Some (''1.'' @ w @ ''Introduction'' @ g) else None))))"

text \<open>
  The last entry of \<open>section_patterns\<close> in \<open>extract_sections\<close>:
  \<open>16\\.\\s+Points Requiring(.*?)$\<close> under \<open>re.DOTALL\<close>, giving group 0.
\<close>

definition last_section_pattern :: "string \<Rightarrow> string option" where
  "last_section_pattern s =
     lit ''16.'' s (\<lambda>r.
       greedy_plus isspace r (\<lambda>w r.
         lit ''Points Requiring'' r (\<lambda>r.
           lazy_star (\<lambda>c. True) [] r (\<lambda>g rest.
             if at_dollar rest then Some (''16.'' @ w @ ''Points Requiring'' @ g) else None))))"

text \<open>The lookahead \<open>\\d+\\.\\d+|\\Z\<close>.\<close>

definition subsection_ahead :: "string \<Rightarrow> bool" where
  "subsection_ahead s =
     (greedy_plus isdigit s (\<lambda>d r. lit ''.'' r (\<lambda>r. greedy_plus isdigit r (\<lambda>d r. Some ())))
        \<noteq> None
      \<or> s = [])"

text \<open>
  \<open>(\\d+)\\.(\\d+)\\s+(.*?)(?=\\d+\\.\\d+|\\Z)\<close> under \<open>re.DOTALL\<close>: groups 1, 2 and 0,
  and the text after the match.
\<close>

definition subsection_pattern :: "string \<Rightarrow> ((string \<times> string \<times> string) \<times> string) option" where
  "subsection_pattern s =
     greedy_plus isdigit s (\<lambda>g1 r.
       lit ''.'' r (\<lambda>r.
         greedy_plus isdigit r (\<lambda>g2 r.
           greedy_plus isspace r (\<lambda>w r.
             lazy_star (\<lambda>c. True) [] r (\<lambda>g3 rest.
               if subsection_ahead rest then Some ((g1, g2, g1 @ ''.'' @ g2 @ w @ g3), rest)
               else None)))))"

text \<open>
  What a successful match has read: each matcher hands its continuation a split of the
  text it was given. The search of \<open>finditer\<close> resumes after a match, and these facts
  show that it resumes on a shorter text.
\<close>

lemma greedy_star_SomeE:
  assumes "greedy_star P acc s k = Some r"
  obtains w t where "s = w @ t" "k (acc @ w) t = Some r"
  using assms
proof (induction s arbitrary: acc thesis)
  case Nil
  from Nil(1) [of "[]" "[]"] Nil(2) show ?case by simp
next
  case (Cons c cs)
  show ?case
  proof (cases "P c \<and> greedy_star P (acc @ [c]) cs k = Some r")
    case True
    then have g: "greedy_star P (acc @ [c]) cs k = Some r" by simp
    show ?thesis
    proof (rule Cons.IH [OF _ g])
      fix w t assume "cs = w @ t" "k ((acc @ [c]) @ w) t = Some r"
      then show thesis using Cons.prems(1) [of "c # w" t] by simp
    qed
  next
    case False
    with Cons.prems(2) have "k acc (c # cs) = Some r"
      by (auto split: if_splits option.splits)
    then show ?thesis using Cons.prems(1) [of "[]" "c # cs"] by simp
  qed
qed

lemma greedy_plus_SomeE:
  assumes "greedy_plus P s k = Some r"
  obtains w t where "w \<noteq> []" "s = w @ t" "k w t = Some r"
proof (cases s)
  case Nil
  with assms show ?thesis by (simp add: greedy_plus_def)
next
  case (Cons c cs)
  with assms have "greedy_star P [c] cs k = Some r"
    by (simp add: greedy_plus_def split: if_splits)
  then obtain w t where "cs = w @ t" "k ([c] @ w) t = Some r"
    by (rule greedy_star_SomeE)
  with Cons that [of "c # w" t] show ?thesis by simp
qed

lemma lazy_star_SomeE:
  assumes "lazy_star P acc s k = Some r"
  obtains w t where "s = w @ t" "k (acc @ w) t = Some r"
  using assms
proof (induction s arbitrary: acc thesis)
  case Nil
  from Nil(1) [of "[]" "[]"] Nil(2) show ?case by simp
next
  case (Cons c cs)
  show ?case
  proof (cases "k acc (c # cs)")
    case (Some a)
    with Cons.prems(2) have "k acc (c # cs) = Some r" by simp
    then show ?thesis using Cons.prems(1) [of "[]" "c # cs"] by simp
  next
    case None
    with Cons.prems(2) have g: "lazy_star P (acc @ [c]) cs k = Some r"
      by (simp split: if_splits)
    show ?thesis
    proof (rule Cons.IH [OF _ g])
      fix w t assume "cs = w @ t" "k ((acc @ [c]) @ w) t = Some r"
      then show thesis using Cons.prems(1) [of "c # w" t] by simp
    qed
  qed
qed

lemma lit_SomeE:
  assumes "lit p s k = Some r"
  obtains t where "s = p @ t" "k t = Some r"
  using assms unfolding lit_def by (auto simp: prefix_def split: if_splits)

lemma subsection_pattern_shorter:
  assumes "subsection_pattern s = Some (m, rest)"
  shows "length rest < length s"
  using assms unfolding subsection_pattern_def
  by (elim greedy_plus_SomeE lit_SomeE lazy_star_SomeE) (simp split: if_splits)

text \<open>
  \<open>re.finditer\<close> for the subsection pattern: the matches from left to right, each search
  starting where the last match ended. A match is never empty.
\<close>

function finditer :: "string \<Rightarrow> (string \<times> string \<times> string) list" where
  "finditer [] = []"
| "finditer (c # cs) =
     (case subsection_pattern (c # cs) of
        Some (m, rest) \<Rightarrow> m # finditer rest
      | None \<Rightarrow> finditer cs)"
  by pat_completeness auto
termination
  by (relation "measure length") (auto dest: subsection_pattern_shorter)

definition extract_subsections :: "string \<Rightarrow> (string \<rightharpoonup> string)" where
  "extract_subsections section_content =
     fold (\<lambda>(section_num, subsection_num, subsection_content) subsections.
             subsections(subsection_num \<mapsto> subsection_content))
       (finditer section_content) Map.empty"

declare finditer.simps [simp del]

text \<open>The minor ordinal (group 2) and the whole text (group 0) of a match.\<close>

definition minor :: "string \<times> string \<times> string \<Rightarrow> string" where
  "minor m = fst (snd m)"

definition whole :: "string \<times> string \<times> string \<Rightarrow> string" where
  "whole m = snd (snd m)"

section \<open>The formatter as the specification words it\<close>

text \<open>
  The non-blank lines of a body, trimmed; a bullet line is one of them that starts with
  a bullet marker, and its item text is the line without the marker, trimmed.
  \<open>blocks_of\<close> turns each maximal run of bullet lines into one list and every other line
  into a paragraph of its own.
\<close>

definition is_bullet_line :: "string \<Rightarrow> bool" where
  "is_bullet_line l = (prefix ''-'' l \<or> prefix ''*'' l)"

definition bullet_text :: "string \<Rightarrow> string" where
  "bullet_text l = strip (tl l)"

definition content_lines :: "string \<Rightarrow> string list" where
  "content_lines content = filter (\<lambda>l. l \<noteq> []) (map strip (split_on NL content))"

function blocks_of :: "string list \<Rightarrow> flowable list" where
  "blocks_of [] = []"
| "blocks_of (l # ls) =
     (if is_bullet_line l then
        ListFlowable (map bullet_text (l # takeWhile is_bullet_line ls))
          # blocks_of (dropWhile is_bullet_line ls)
      else Paragraph l NormalStyle # blocks_of ls)"
  by pat_completeness auto
termination
  by (relation "measure length") (auto simp: less_Suc_eq_le length_dropWhile_le)

text \<open>
  A line whose first character is a bullet marker and whose second is whitespace;
  \<open>has_bullet_line\<close> asks for a line that is so after trimming. \<open>any_marked\<close> reads each
  line after its leading whitespace and together with the line feed that ends it (the
  last line has none).
\<close>

definition bullet_then_space :: "string \<Rightarrow> bool" where
  "bullet_then_space l =
     (case l of
        c # d # rest \<Rightarrow> (c = CHR ''-'' \<or> c = CHR ''*'') \<and> isspace d
      | _ \<Rightarrow> False)"

definition has_bullet_line :: "string \<Rightarrow> bool" where
  "has_bullet_line content = list_ex (\<lambda>l. bullet_then_space (strip l)) (split_on NL content)"

fun any_marked :: "string list \<Rightarrow> bool" where
  "any_marked [] = False"
| "any_marked [l] = bullet_then_space (dropWhile isspace l)"
| "any_marked (l # l' # ls) =
     (bullet_then_space (dropWhile isspace l @ [NL]) \<or> any_marked (l' # ls))"

fun join_lines :: "string list \<Rightarrow> string" where
  "join_lines [] = []"
| "join_lines [l] = l"
| "join_lines (l # l' # ls) = l @ NL # join_lines (l' # ls)"

text \<open>The item texts of the lists, and the paragraph texts, of a block sequence, in order.\<close>

definition bullet_items :: "flowable list \<Rightarrow> string list" where
  "bullet_items bs = concat (map (\<lambda>b. case b of ListFlowable items \<Rightarrow> items | _ \<Rightarrow> []) bs)"

definition paragraph_texts :: "flowable list \<Rightarrow> string list" where
  "paragraph_texts bs = concat (map (\<lambda>b. case b of Paragraph t st \<Rightarrow> [t] | _ \<Rightarrow> []) bs)"

text \<open>Whether a flowable is a table.\<close>

fun is_table :: "flowable \<Rightarrow> bool" where
  "is_table (Table rows) = True"
| "is_table b = False"

text \<open>
  What a lazy \<open>(.*?)\<close> under \<open>re.DOTALL\<close> captures before a lookahead \<open>B\<close>: the shortest
  prefix after which \<open>B\<close> holds. \<open>boundary n\<close> is the lookahead of the section patterns
  with \<open>n\<close> the next ordinal.
\<close>

fun capture_until :: "(string \<Rightarrow> bool) \<Rightarrow> string \<Rightarrow> string" where
  "capture_until B [] = []"
| "capture_until B (c # cs) = (if B (c # cs) then [] else c # capture_until B cs)"

definition boundary :: "nat \<Rightarrow> string \<Rightarrow> bool" where
  "boundary n rest = (marker n rest \<or> at_dollar rest)"

text \<open>The phrase the project name is looked for after.\<close>

definition title_phrase :: string where
  "title_phrase = ''Product Requirements Document''"








definition no_match_in :: "(string \<Rightarrow> 'a option) \<Rightarrow> string \<Rightarrow> string \<Rightarrow> bool" where
  "no_match_in m X Y = (\<forall>k < length X. m (drop k X @ Y) = None)"

text \<open>
  The project name, worded without the pattern. \<open>after_first p s\<close> is the text that
  follows the first occurrence of \<open>p\<close> in \<open>s\<close>. A colon right after the phrase is
  skipped, unless nothing but line feeds follows the colon; then the whitespace, line
  feeds included, is skipped, and the rest of the line reached is the name, trimmed.
\<close>

fun after_first :: "string \<Rightarrow> string \<Rightarrow> string option" where
  "after_first p [] = (if p = [] then Some [] else None)"
| "after_first p (c # cs) =
     (if prefix p (c # cs) then Some (drop (length p) (c # cs)) else after_first p cs)"

definition after_colon :: "string \<Rightarrow> string" where
  "after_colon r =
     (if r \<noteq> [] \<and> hd r = CHR '':'' \<and> \<not> list_all (\<lambda>c. c = NL) (tl r) then tl r else r)"

definition project_name_spec :: "string \<Rightarrow> string" where
  "project_name_spec content =
     (case after_first title_phrase content of
        None \<Rightarrow> ''Project Requirements Document''
      | Some r \<Rightarrow>
          if list_all (\<lambda>c. c = NL) r then ''Project Requirements Document''
          else strip (takeWhile (\<lambda>c. c \<noteq> NL) (dropWhile isspace (after_colon r))))"

section \<open>Properties of the table routine\<close>

lemma table_rows_acc:
  "table_rows ls rows = rows @ map row_cells (filter is_data_row ls)"
  by (induction ls arbitrary: rows) (simp_all add: Let_def is_data_row_def row_cells_def)

text \<open>
  C7. For every section body the routine appends a single table. Its row 0 is the fixed
  header; the rows after it are the first four trimmed cells of exactly the lines that,
  trimmed, start with FR, contain a bar and split into at least four cells, in line
  order (so a line starting with ID contributes nothing); the placeholder row is appended,
  once, exactly when there is no data row.
\<close>

theorem table_routine_rows:
  "add_functional_requirements_table content story =
     story @ [Table (header_row #
        (if data_rows content = [] then [placeholder_row] else data_rows content))]"
  by (simp add: add_functional_requirements_table_def table_rows_acc data_rows_def Let_def)

section \<open>Properties of the subsection extraction\<close>

lemma fold_subsections:
  "fold (\<lambda>(section_num, subsection_num, subsection_content) subsections.
             subsections(subsection_num \<mapsto> subsection_content)) ms d
   = d ++ map_of (rev (map (\<lambda>m. (minor m, whole m)) ms))"
  (is "fold ?F ms d = _")
proof (induction ms arbitrary: d)
  case Nil
  then show ?case by simp
next
  case (Cons m ms)
  obtain a k v where m: "m = (a, k, v)" by (cases m) auto
  have "fold ?F (m # ms) d = fold ?F ms (d(k \<mapsto> v))"
    by (simp only: m fold_simps prod.case)
  also have "\<dots> = d(k \<mapsto> v) ++ map_of (rev (map (\<lambda>m. (minor m, whole m)) ms))"
    by (rule Cons.IH)
  also have "\<dots> = d ++ ([k \<mapsto> v] ++ map_of (rev (map (\<lambda>m. (minor m, whole m)) ms)))"
    by (rule ext) (simp add: map_add_def split: option.splits)
  also have "\<dots> = d ++ map_of (rev (map (\<lambda>m. (minor m, whole m)) (m # ms)))"
    by (simp add: m minor_def whole_def)
  finally show ?case .
qed

lemma extract_subsections_map_of:
  "extract_subsections body = map_of (rev (map (\<lambda>m. (minor m, whole m)) (finditer body)))"
  by (simp add: extract_subsections_def fold_subsections)

lemma map_of_rev_last:
  assumes "k \<notin> fst ` set post"
  shows "map_of (rev (pre @ (k, v) # post)) k = Some v"
proof -
  have "map_of (rev post) k = None"
    using assms by (simp add: map_of_eq_None_iff)
  then show ?thesis by (simp add: map_add_def)
qed

text \<open>
  C10. The result of the subsection extraction is keyed by the minor ordinal alone: its
  keys are the minor ordinals of the matches; the entry of a minor ordinal is the text
  of the last match that carries it, whatever its major ordinal, so a later match
  overwrites an earlier one with the same minor ordinal; and when two matches share a
  minor ordinal the result has fewer entries than the body has matches.
\<close>

theorem subsections_keyed_by_minor:
  "dom (extract_subsections body) = minor ` set (finditer body)
   \<and> (\<forall>pre m post. finditer body = pre @ m # post \<and> minor m \<notin> minor ` set post
         \<longrightarrow> extract_subsections body (minor m) = Some (whole m))
   \<and> (\<not> distinct (map minor (finditer body))
         \<longrightarrow> card (dom (extract_subsections body)) < length (finditer body))"
proof (intro conjI allI impI)
  show d: "dom (extract_subsections body) = minor ` set (finditer body)"
    by (simp add: extract_subsections_map_of dom_map_of_conv_image_fst image_image)
  show "extract_subsections body (minor m) = Some (whole m)"
    if "finditer body = pre @ m # post \<and> minor m \<notin> minor ` set post" for pre m post
  proof -
    have "minor m \<notin> fst ` set (map (\<lambda>m. (minor m, whole m)) post)"
      using that by (simp add: image_image)
    from map_of_rev_last [OF this, of "map (\<lambda>m. (minor m, whole m)) pre" "whole m"]
    show ?thesis using that by (simp add: extract_subsections_map_of)
  qed
  show "card (dom (extract_subsections body)) < length (finditer body)"
    if "\<not> distinct (map minor (finditer body))"
  proof -
    have "card (set (map minor (finditer body))) \<noteq> length (map minor (finditer body))"
      using that card_distinct by blast
    moreover have "card (set (map minor (finditer body))) \<le> length (map minor (finditer body))"
      by (rule card_length)
    ultimately show ?thesis using d by simp
  qed
qed

lemma finditer_example:
  "finditer ''1.1 a 2.1 b'' = [(''1'', ''1'', ''1.1 a ''), (''2'', ''1'', ''2.1 b'')]"
  by code_simp

theorem subsections_keyed_by_minor_witness:
  "finditer ''1.1 a 2.1 b'' = [(''1'', ''1'', ''1.1 a ''), (''2'', ''1'', ''2.1 b'')]
   \<and> dom (extract_subsections ''1.1 a 2.1 b'') = {''1''}
   \<and> extract_subsections ''1.1 a 2.1 b'' ''1'' = Some ''2.1 b''
   \<and> card (dom (extract_subsections ''1.1 a 2.1 b'')) < 2"
proof -
  note f = finditer_example
  note t = subsections_keyed_by_minor [of "''1.1 a 2.1 b''"]
  have d: "dom (extract_subsections ''1.1 a 2.1 b'') = {''1''}"
    using t by (simp add: f minor_def)
  have "finditer ''1.1 a 2.1 b'' = [(''1'', ''1'', ''1.1 a '')] @ (''2'', ''1'', ''2.1 b'') # []
        \<and> minor (''2'', ''1'', ''2.1 b'') \<notin> minor ` set []"
    by (simp add: f)
  with t have "extract_subsections ''1.1 a 2.1 b'' (minor (''2'', ''1'', ''2.1 b'')) = Some (whole (''2'', ''1'', ''2.1 b''))"
    by blast
  then have e: "extract_subsections ''1.1 a 2.1 b'' ''1'' = Some ''2.1 b''"
    by (simp add: minor_def whole_def)
  have "\<not> distinct (map minor (finditer ''1.1 a 2.1 b''))"
    by (simp add: f minor_def)
  with t have "card (dom (extract_subsections ''1.1 a 2.1 b'')) < length (finditer ''1.1 a 2.1 b'')"
    by blast
  with f d e show ?thesis by simp
qed

section \<open>Properties of the formatter\<close>

lemma format_lines_blocks:
  assumes "items = [] \<or> paragraphs = []"
  shows "format_lines ls items paragraphs story =
     story @ (if items \<noteq> [] then
                ListFlowable (items @ map bullet_text
                    (takeWhile is_bullet_line (filter (\<lambda>l. l \<noteq> []) (map strip ls))))
                  # blocks_of (dropWhile is_bullet_line (filter (\<lambda>l. l \<noteq> []) (map strip ls)))
              else map (\<lambda>p. Paragraph p NormalStyle) paragraphs
                  @ blocks_of (filter (\<lambda>l. l \<noteq> []) (map strip ls)))"
  using assms
proof (induction ls arbitrary: items paragraphs story)
  case Nil
  then show ?case by auto
next
  case (Cons l ls)
  show ?case
  proof (cases "strip l = []")
    case True
    then show ?thesis using Cons.IH [OF Cons.prems] by simp
  next
    case blank: False
    show ?thesis
    proof (cases "is_bullet_line (strip l)")
      case True
      then have b: "prefix ''-'' (strip l) \<or> prefix ''*'' (strip l)"
        by (simp add: is_bullet_line_def)
      show ?thesis
      proof (cases "paragraphs = []")
        case True
        have "format_lines (l # ls) items paragraphs story
              = format_lines ls (items @ [bullet_text (strip l)]) [] story"
          using blank b True by (simp add: Let_def bullet_text_def)
        also have "\<dots> = story @ ListFlowable ((items @ [bullet_text (strip l)]) @ map bullet_text
                    (takeWhile is_bullet_line (filter (\<lambda>l. l \<noteq> []) (map strip ls))))
                  # blocks_of (dropWhile is_bullet_line (filter (\<lambda>l. l \<noteq> []) (map strip ls)))"
          by (subst Cons.IH) simp_all
        finally show ?thesis using blank \<open>is_bullet_line (strip l)\<close> True by simp
      next
        case False
        with Cons.prems have i: "items = []" by simp
        have "format_lines (l # ls) items paragraphs story
              = format_lines ls [bullet_text (strip l)] []
                  (story @ map (\<lambda>p. Paragraph p NormalStyle) paragraphs)"
          using blank b False i by (simp add: Let_def bullet_text_def)
        also have "\<dots> = (story @ map (\<lambda>p. Paragraph p NormalStyle) paragraphs)
                  @ ListFlowable ([bullet_text (strip l)] @ map bullet_text
                    (takeWhile is_bullet_line (filter (\<lambda>l. l \<noteq> []) (map strip ls))))
                  # blocks_of (dropWhile is_bullet_line (filter (\<lambda>l. l \<noteq> []) (map strip ls)))"
          by (subst Cons.IH) simp_all
        finally show ?thesis using blank \<open>is_bullet_line (strip l)\<close> i by simp
      qed
    next
      case False
      then have b: "\<not> (prefix ''-'' (strip l) \<or> prefix ''*'' (strip l))"
        by (simp add: is_bullet_line_def)
      show ?thesis
      proof (cases "items = []")
        case True
        have "format_lines (l # ls) items paragraphs story
              = format_lines ls [] (paragraphs @ [strip l]) story"
          using blank b True by (simp add: Let_def)
        also have "\<dots> = story @ map (\<lambda>p. Paragraph p NormalStyle) (paragraphs @ [strip l])
                  @ blocks_of (filter (\<lambda>l. l \<noteq> []) (map strip ls))"
          by (subst Cons.IH) simp_all
        finally show ?thesis using blank False True by simp
      next
        case nonempty: False
        with Cons.prems have p: "paragraphs = []" by simp
        have "format_lines (l # ls) items paragraphs story
              = format_lines ls [] [strip l] (story @ [ListFlowable items])"
          using blank b nonempty p by (simp add: Let_def)
        also have "\<dots> = (story @ [ListFlowable items]) @ map (\<lambda>p. Paragraph p NormalStyle) [strip l]
                  @ blocks_of (filter (\<lambda>l. l \<noteq> []) (map strip ls))"
          by (subst Cons.IH) simp_all
        finally show ?thesis using blank False nonempty by simp
      qed
    qed
  qed
qed

lemma mixed_mode_blocks:
  "search_bol bullet_pattern True content \<noteq> None \<Longrightarrow>
   add_content_with_formatting content story = story @ blocks_of (content_lines content)"
  by (simp add: add_content_with_formatting_def format_lines_blocks content_lines_def)

lemma isspace_NL [simp]: "isspace NL"
  by (simp add: isspace_def)

lemma isspace_space [simp]: "isspace (CHR '' '')"
  by (simp add: isspace_def)

lemma not_isspace_bullet [simp]: "\<not> isspace (CHR ''-'')" "\<not> isspace (CHR ''*'')"
  by (simp_all add: isspace_def)

lemma greedy_star_max:
  assumes "\<And>w c r. P c \<Longrightarrow> k w (c # r) = None"
  shows "greedy_star P acc s k = k (acc @ takeWhile P s) (dropWhile P s)"
proof (induction s arbitrary: acc)
  case Nil
  then show ?case by simp
next
  case (Cons c cs)
  then show ?case by (simp add: assms split: option.splits)
qed

lemma one_one_bullet:
  "one (\<lambda>c. c = CHR ''-'' \<or> c = CHR ''*'') t (\<lambda>r. one isspace r (\<lambda>r. Some ())) = None
   \<longleftrightarrow> \<not> bullet_then_space t"
proof (cases t)
  case Nil
  then show ?thesis by (simp add: one_def bullet_then_space_def)
next
  case (Cons c r)
  then show ?thesis by (cases r) (auto simp: one_def bullet_then_space_def)
qed

lemma bullet_pattern_iff:
  "bullet_pattern s = None \<longleftrightarrow> \<not> bullet_then_space (dropWhile isspace s)"
proof -
  have "one (\<lambda>c. c = CHR ''-'' \<or> c = CHR ''*'') (c # r) (\<lambda>r. one isspace r (\<lambda>r. Some ())) = None"
    if "isspace c" for c r
    using that by (auto simp: one_def)
  then have e: "bullet_pattern s =
      one (\<lambda>c. c = CHR ''-'' \<or> c = CHR ''*'') (dropWhile isspace s) (\<lambda>r. one isspace r (\<lambda>r. Some ()))"
    unfolding bullet_pattern_def
    by (subst greedy_star_max) simp_all
  show ?thesis
    unfolding e by (rule one_one_bullet)
qed


lemma split_on_nonempty [simp]: "split_on sep s \<noteq> []"
  by (induction s) (auto split: list.splits)

lemma join_split_on: "join_lines (split_on NL s) = s"
proof (induction s)
  case Nil
  then show ?case by simp
next
  case (Cons c cs)
  obtain w ws where w: "split_on NL cs = w # ws"
    by (cases "split_on NL cs") simp_all
  with Cons show ?case by (cases ws) auto
qed

lemma split_on_no_sep: "l \<in> set (split_on sep s) \<Longrightarrow> sep \<notin> set l"
proof (induction s arbitrary: l)
  case Nil
  then show ?case by simp
next
  case (Cons c cs)
  obtain w ws where w: "split_on sep cs = w # ws"
    by (cases "split_on sep cs") simp_all
  with Cons show ?case by (auto split: if_splits)
qed

lemma search_bol_line:
  assumes "NL \<notin> set l"
  shows "search_bol m False (l @ NL # t) = search_bol m True t"
  using assms by (induction l) auto

lemma search_bol_no_line:
  assumes "NL \<notin> set l"
  shows "search_bol m False l = None"
  using assms by (induction l) auto

lemma search_bol_True:
  "search_bol m True s = None \<longleftrightarrow> m s = None \<and> search_bol m False s = None"
  by (cases s) (auto split: option.splits)

lemma dropWhile_all: "\<forall>c \<in> set l. P c \<Longrightarrow> dropWhile P (l @ t) = dropWhile P t"
  by (induction l) auto

lemma bullet_then_space_append:
  assumes "l \<noteq> []"
  shows "bullet_then_space (l @ NL # t) = bullet_then_space (l @ [NL])"
proof -
  from assms obtain c r where l: "l = c # r" by (cases l) auto
  show ?thesis unfolding l by (cases r) (simp_all add: bullet_then_space_def)
qed


lemma absorb_left: "(s \<Longrightarrow> \<not> b) \<Longrightarrow> s = (\<not> m) \<Longrightarrow> (\<not> b \<and> s) = (\<not> m)"
  by blast

lemma conj_right_cong: "s = (\<not> m) \<Longrightarrow> (\<not> b \<and> s) = (\<not> b \<and> \<not> m)"
  by blast

lemma bullet_search_lines:
  assumes "ls \<noteq> []" "\<forall>l \<in> set ls. NL \<notin> set l"
  shows "search_bol bullet_pattern True (join_lines ls) = None \<longleftrightarrow> \<not> any_marked ls"
  using assms
proof (induction ls rule: any_marked.induct)
  case 1
  then show ?case by simp
next
  case (2 l)
  then show ?case
    by (simp add: search_bol_True search_bol_no_line bullet_pattern_iff)
next
  case (3 l l' ls)
  let ?t = "join_lines (l' # ls)"
  have IH: "search_bol bullet_pattern True ?t = None \<longleftrightarrow> \<not> any_marked (l' # ls)"
    using 3 by simp
  have nl: "NL \<notin> set l" using 3 by simp
  have s: "search_bol bullet_pattern True (l @ NL # ?t) = None
      \<longleftrightarrow> \<not> bullet_then_space (dropWhile isspace (l @ NL # ?t)) \<and> search_bol bullet_pattern True ?t = None"
    by (simp only: search_bol_True [of _ "l @ NL # ?t"] search_bol_line [OF nl] bullet_pattern_iff)
  show ?case
  proof (cases "\<forall>c \<in> set l. isspace c")
    case True
    then have d: "dropWhile isspace (l @ NL # ?t) = dropWhile isspace ?t"
      using dropWhile_all [of l isspace "NL # ?t"] by simp
    have e: "dropWhile isspace l = []" using True by simp
    have n: "\<not> bullet_then_space [NL]" by (simp add: bullet_then_space_def)
    have "search_bol bullet_pattern True ?t = None \<Longrightarrow> \<not> bullet_then_space (dropWhile isspace ?t)"
      using bullet_pattern_iff search_bol_True by blast
    then have "search_bol bullet_pattern True (l @ NL # ?t) = None \<longleftrightarrow> \<not> any_marked (l' # ls)"
      unfolding s d using IH by (rule absorb_left)
    then show ?thesis
      by (simp only: join_lines.simps any_marked.simps e append_Nil n simp_thms)
  next
    case False
    then obtain x where x: "x \<in> set l" "\<not> isspace x" by blast
    then have d: "dropWhile isspace (l @ NL # ?t) = dropWhile isspace l @ NL # ?t"
      by (rule dropWhile_append1)
    have e: "dropWhile isspace l \<noteq> []" using x by auto
    have b: "bullet_then_space (dropWhile isspace l @ NL # ?t)
        = bullet_then_space (dropWhile isspace l @ [NL])"
      by (rule bullet_then_space_append [OF e])
    have "search_bol bullet_pattern True (l @ NL # ?t) = None
       \<longleftrightarrow> \<not> bullet_then_space (dropWhile isspace l @ [NL]) \<and> \<not> any_marked (l' # ls)"
      unfolding s d b using IH by (rule conj_right_cong)
    then show ?thesis
      by (simp only: join_lines.simps any_marked.simps de_Morgan_disj)
  qed
qed

lemma mixed_mode_iff:
  "search_bol bullet_pattern True content = None \<longleftrightarrow> \<not> any_marked (split_on NL content)"
proof -
  have "\<forall>l \<in> set (split_on NL content). NL \<notin> set l"
    using split_on_no_sep by blast
  from bullet_search_lines [OF split_on_nonempty this]
  show ?thesis by (simp only: join_split_on)
qed


lemma rev_dropWhile_rev_prefix: "prefix (rev (dropWhile P (rev xs))) xs"
proof -
  have "rev (dropWhile P (rev xs)) @ rev (takeWhile P (rev xs))
        = rev (takeWhile P (rev xs) @ dropWhile P (rev xs))"
    by (simp only: rev_append)
  also have "\<dots> = xs"
    by (simp only: takeWhile_dropWhile_id rev_rev_ident)
  finally have "xs = rev (dropWhile P (rev xs)) @ rev (takeWhile P (rev xs))"
    by (rule sym)
  then show ?thesis by (rule prefixI)
qed

lemma strip_prefix_lstrip: "prefix (strip l) (dropWhile isspace l)"
  unfolding strip_def by (rule rev_dropWhile_rev_prefix)

lemma bullet_then_space_prefix:
  assumes "bullet_then_space p" "prefix p q"
  shows "bullet_then_space q"
proof -
  from assms(1) obtain c d r where p: "p = c # d # r"
    by (cases p; cases "tl p") (auto simp: bullet_then_space_def)
  from assms(2) obtain t where "q = p @ t" by (auto simp: prefix_def)
  with assms(1) p show ?thesis by (simp add: bullet_then_space_def)
qed

lemma bullet_line_marked:
  assumes "bullet_then_space (strip l)"
  shows "bullet_then_space (dropWhile isspace l)" "bullet_then_space (dropWhile isspace l @ [NL])"
proof -
  show "bullet_then_space (dropWhile isspace l)"
    using assms strip_prefix_lstrip by (rule bullet_then_space_prefix)
  have "prefix (strip l) (dropWhile isspace l @ [NL])"
    using strip_prefix_lstrip by (rule prefix_prefix)
  with assms show "bullet_then_space (dropWhile isspace l @ [NL])"
    by (rule bullet_then_space_prefix)
qed

lemma bullet_lines_marked:
  "list_ex (\<lambda>l. bullet_then_space (strip l)) ls \<Longrightarrow> any_marked ls"
  by (induction ls rule: any_marked.induct) (auto dest: bullet_line_marked)

lemma has_bullet_line_mixed:
  "has_bullet_line content \<Longrightarrow> search_bol bullet_pattern True content \<noteq> None"
  unfolding has_bullet_line_def mixed_mode_iff by (simp add: bullet_lines_marked)

lemma filter_takeWhile_dropWhile:
  "filter P xs = takeWhile P xs @ filter P (dropWhile P xs)"
  by (induction xs) auto

lemma filter_not_dropWhile:
  "filter (\<lambda>x. \<not> P x) (dropWhile P xs) = filter (\<lambda>x. \<not> P x) xs"
  by (induction xs) auto

lemma bullet_items_blocks:
  "bullet_items (blocks_of ls) = map bullet_text (filter is_bullet_line ls)"
proof (induction ls rule: blocks_of.induct)
  case 1
  then show ?case by (simp add: bullet_items_def)
next
  case (2 l ls)
  show ?case
  proof (cases "is_bullet_line l")
    case True
    with 2 show ?thesis
      using filter_takeWhile_dropWhile [of is_bullet_line ls]
      by (simp add: bullet_items_def)
  next
    case False
    with 2 show ?thesis by (simp add: bullet_items_def)
  qed
qed

lemma paragraph_texts_blocks:
  "paragraph_texts (blocks_of ls) = filter (\<lambda>l. \<not> is_bullet_line l) ls"
proof (induction ls rule: blocks_of.induct)
  case 1
  then show ?case by (simp add: paragraph_texts_def)
next
  case (2 l ls)
  show ?case
  proof (cases "is_bullet_line l")
    case True
    with 2 show ?thesis
      by (simp add: paragraph_texts_def filter_not_dropWhile)
  next
    case False
    with 2 show ?thesis by (simp add: paragraph_texts_def)
  qed
qed


text \<open>
  C3. For every body with at least one line that, trimmed, begins with a bullet marker
  followed by whitespace, the formatter appends exactly the blocks of the non-blank
  trimmed lines in input order: each maximal run of consecutive bullet lines (lines
  starting with the marker, as the loop tests them) is one list holding their texts,
  marker stripped and trimmed, in order; every other non-blank line is a paragraph of
  its own; blank lines are skipped. The witness is the body of the specification's
  example.
\<close>

theorem mixed_mode_preserves_runs:
  "has_bullet_line content \<Longrightarrow>
   add_content_with_formatting content story = story @ blocks_of (content_lines content)"
  by (rule mixed_mode_blocks) (rule has_bullet_line_mixed)

theorem mixed_mode_preserves_runs_witness:
  "has_bullet_line (''Intro line'' @ [NL] @ ''- item one'' @ [NL] @ ''- item two'' @ [NL] @ ''More text'')
   \<and> add_content_with_formatting
        (''Intro line'' @ [NL] @ ''- item one'' @ [NL] @ ''- item two'' @ [NL] @ ''More text'') []
      = [Paragraph ''Intro line'' NormalStyle,
         ListFlowable [''item one'', ''item two''],
         Paragraph ''More text'' NormalStyle]"
proof -
  let ?body = "''Intro line'' @ [NL] @ ''- item one'' @ [NL] @ ''- item two'' @ [NL] @ ''More text''"
  have h: "has_bullet_line ?body" by code_simp
  have b: "blocks_of (content_lines ?body)
      = [Paragraph ''Intro line'' NormalStyle,
         ListFlowable [''item one'', ''item two''],
         Paragraph ''More text'' NormalStyle]"
    by code_simp
  from mixed_mode_preserves_runs [OF h, of "[]"] h b show ?thesis by simp
qed

text \<open>
  C9, amended. The mode test and the per-line test differ. The formatter is in the mixed
  mode exactly when some line, after its leading whitespace, has a bullet marker followed
  by a whitespace character, where the line feed that ends the line counts. In that mode
  every non-blank line whose trimmed form starts with a marker, whitespace after it or
  not, is a list item with its first character stripped, and the other lines are the
  paragraphs. Otherwise the body is formatted in the pure paragraph mode, markers left in
  the text.
\<close>

theorem marker_tests_differ:
  "(any_marked (split_on NL content) \<longrightarrow>
      add_content_with_formatting content story = story @ blocks_of (content_lines content)
      \<and> bullet_items (blocks_of (content_lines content))
          = map bullet_text (filter is_bullet_line (content_lines content))
      \<and> paragraph_texts (blocks_of (content_lines content))
          = filter (\<lambda>l. \<not> is_bullet_line l) (content_lines content))
   \<and> (\<not> any_marked (split_on NL content) \<longrightarrow>
      add_content_with_formatting content story
        = story @ map (\<lambda>p. Paragraph (strip p) NormalStyle)
                    (filter (\<lambda>p. strip p \<noteq> []) (split_blank content)))"
proof (intro conjI impI)
  assume "any_marked (split_on NL content)"
  then have "search_bol bullet_pattern True content \<noteq> None"
    using mixed_mode_iff by blast
  then show "add_content_with_formatting content story = story @ blocks_of (content_lines content)"
    by (rule mixed_mode_blocks)
next
  show "bullet_items (blocks_of (content_lines content))
          = map bullet_text (filter is_bullet_line (content_lines content))"
    by (rule bullet_items_blocks)
next
  show "paragraph_texts (blocks_of (content_lines content))
          = filter (\<lambda>l. \<not> is_bullet_line l) (content_lines content)"
    by (rule paragraph_texts_blocks)
next
  assume "\<not> any_marked (split_on NL content)"
  then have "search_bol bullet_pattern True content = None"
    using mixed_mode_iff by blast
  then show "add_content_with_formatting content story
        = story @ map (\<lambda>p. Paragraph (strip p) NormalStyle)
                    (filter (\<lambda>p. strip p \<noteq> []) (split_blank content))"
    by (simp add: add_content_with_formatting_def)
qed

theorem marker_tests_differ_witness:
  "any_marked (split_on NL (''- a'' @ [NL] @ ''-5'' @ [NL] @ ''*b* c''))
   \<and> add_content_with_formatting (''- a'' @ [NL] @ ''-5'' @ [NL] @ ''*b* c'') []
       = [ListFlowable [''a'', ''5'', ''b* c'']]
   \<and> \<not> any_marked (split_on NL (''-5'' @ [NL] @ ''*b* c''))
   \<and> add_content_with_formatting (''-5'' @ [NL] @ ''*b* c'') []
       = [Paragraph (''-5'' @ [NL] @ ''*b* c'') NormalStyle]"
proof -
  let ?m = "''- a'' @ [NL] @ ''-5'' @ [NL] @ ''*b* c''"
  let ?p = "''-5'' @ [NL] @ ''*b* c''"
  have m: "any_marked (split_on NL ?m)" by code_simp
  have bm: "blocks_of (content_lines ?m) = [ListFlowable [''a'', ''5'', ''b* c'']]" by code_simp
  have p: "\<not> any_marked (split_on NL ?p)" by code_simp
  have bp: "map (\<lambda>p. Paragraph (strip p) NormalStyle) (filter (\<lambda>p. strip p \<noteq> []) (split_blank ?p))
      = [Paragraph ?p NormalStyle]" by code_simp
  from marker_tests_differ [of ?m "[]"] m
  have "add_content_with_formatting ?m [] = [] @ blocks_of (content_lines ?m)" by blast
  then have 1: "add_content_with_formatting ?m [] = [ListFlowable [''a'', ''5'', ''b* c'']]"
    by (simp only: bm append_Nil)
  from marker_tests_differ [of ?p "[]"] p
  have "add_content_with_formatting ?p []
      = [] @ map (\<lambda>p. Paragraph (strip p) NormalStyle) (filter (\<lambda>p. strip p \<noteq> []) (split_blank ?p))"
    by blast
  then have 2: "add_content_with_formatting ?p [] = [Paragraph ?p NormalStyle]"
    by (simp only: bp append_Nil)
  from m 1 p 2 show ?thesis by blast
qed

text \<open>
  C9 as stated fails on a line that is a lone marker: in the body below no line has a
  marker followed by whitespace on the line, yet the line feed after the marker puts the
  formatter in the mixed mode, and the marker is consumed as an empty list item.
\<close>

theorem lone_marker_line_counterexample:
  "\<not> list_ex (\<lambda>l. bullet_then_space (dropWhile isspace l)) (split_on NL (''-'' @ [NL] @ ''foo''))
   \<and> add_content_with_formatting (''-'' @ [NL] @ ''foo'') []
       = [ListFlowable [[]], Paragraph ''foo'' NormalStyle]"
  by code_simp

section \<open>Properties of the document build\<close>

lemma str_nat_vals:
  "str_nat 1 = ''1''" "str_nat 2 = ''2''" "str_nat 3 = ''3''" "str_nat 4 = ''4''"
  "str_nat 5 = ''5''" "str_nat 6 = ''6''" "str_nat 7 = ''7''" "str_nat 8 = ''8''"
  "str_nat 9 = ''9''" "str_nat 10 = ''10''" "str_nat 11 = ''11''" "str_nat 12 = ''12''"
  "str_nat 13 = ''13''" "str_nat 14 = ''14''" "str_nat 15 = ''15''" "str_nat 16 = ''16''"
  "str_nat 17 = ''17''" "str_nat (Suc 0) = ''1''"
  by code_simp+

lemma upt_sections: "[1..<17] = [1, 2, 3, 4, 5, 6, 7, 8, 9, 10, 11, 12, 13, 14, 15, 16::nat]"
  by code_simp

lemma find_sections_eq:
  "find_sections content = map (\<lambda>i. (str_nat i, section_text i content)) [1..<17]"
  unfolding find_sections_def upt_sections
  by (simp add: str_nat_vals)

lemma sorted_keys:
  "sort_key int_of_str (map str_nat [1..<17]) = map str_nat [1..<17]"
  by code_simp


lemma distinct_keys: "distinct (map str_nat [1..<17])"
  by code_simp

lemma find_sections_lookup:
  assumes "i \<in> set [1..<17]"
  shows "map_of (find_sections content) (str_nat i) = Some (section_text i content)"
proof -
  have d: "distinct (map fst (find_sections content))"
    using distinct_keys by (simp add: find_sections_eq comp_def)
  have "(str_nat i, section_text i content) \<in> set (find_sections content)"
    unfolding find_sections_eq using assms by (simp only: set_map) (rule imageI)
  with d show ?thesis by (simp only: map_of_eq_Some_iff)
qed

lemma parse_and_add_content_fold:
  "parse_and_add_content content story =
     foldl (\<lambda>st i. process_section (str_nat i) (section_text i content) st) story [1..<17]"
proof -
  have k: "map fst (find_sections content) = map str_nat [1..<17]"
    by (simp add: find_sections_eq comp_def)
  have "fold (\<lambda>section_num st.
              case map_of (find_sections content) section_num of
                Some section_content \<Rightarrow> process_section section_num section_content st
              | None \<Rightarrow> st) (map str_nat js) st
        = foldl (\<lambda>st i. process_section (str_nat i) (section_text i content) st) st js"
    if "set js \<subseteq> set [1..<17]" for js st
    using that
  proof (induction js arbitrary: st)
    case Nil
    then show ?case by simp
  next
    case (Cons i js)
    then have "i \<in> set [1..<17]" by simp
    from find_sections_lookup [OF this] Cons show ?case by simp
  qed
  from this [of "[1..<17]" story] show ?thesis
    by (simp only: parse_and_add_content_def Let_def k sorted_keys subset_refl)
qed


lemma blocks_of_no_table: "filter is_table (blocks_of ls) = []"
  by (induction ls rule: blocks_of.induct) simp_all

lemma add_content_no_table:
  "filter is_table (add_content_with_formatting content story) = filter is_table story"
proof (cases "search_bol bullet_pattern True content = None")
  case True
  then show ?thesis
    by (simp add: add_content_with_formatting_def filter_map comp_def)
next
  case False
  then show ?thesis
    by (simp add: mixed_mode_blocks blocks_of_no_table)
qed

lemma process_section_no_table:
  "filter is_table (process_section section_num section_content story) = filter is_table story"
  by (simp add: process_section_def Let_def add_content_no_table split: option.splits)

lemma sections_no_table:
  "filter is_table (foldl (\<lambda>st i. process_section (str_nat i) (section_text i content) st) story js)
   = filter is_table story"
  by (induction js arbitrary: story) (simp_all add: process_section_no_table)

lemma cover_no_table:
  "filter is_table (create_cover_page project_name date_str story) = filter is_table story"
  by (simp add: create_cover_page_def)

lemma toc_no_table:
  "filter is_table (create_table_of_contents story) = filter is_table story"
  by (simp add: create_table_of_contents_def filter_map comp_def split_def)

lemma generate_fold:
  "generate content date_str story =
     foldl (\<lambda>st i. process_section (str_nat i) (section_text i content) st)
       (create_table_of_contents
          (create_cover_page (extract_project_name content) date_str story) @ [PageBreak])
       [1..<17]"
  by (simp only: generate_def Let_def parse_and_add_content_fold)

lemma generate_no_table:
  "filter is_table (generate content date_str story) = filter is_table story"
  unfolding generate_fold sections_no_table
  by (simp add: toc_no_table cover_no_table)

text \<open>
  C4, amended. No document build runs the table extraction. The build is the cover, the
  table of contents and the page break followed by the sixteen sections in order, each
  handled by the same \<open>process_section\<close>, which formats the body of section 4 with the
  paragraph and bullet formatter like every other body; and the build adds no table to
  the story.
\<close>

theorem generate_adds_no_table:
  "generate content date_str story =
     foldl (\<lambda>st i. process_section (str_nat i) (section_text i content) st)
       (create_table_of_contents
          (create_cover_page (extract_project_name content) date_str story) @ [PageBreak])
       [1..<17]
   \<and> filter is_table (generate content date_str story) = filter is_table story"
  using generate_fold generate_no_table by (rule conjI)

theorem generate_adds_no_table_witness:
  "filter is_table
     (generate (''4. Functional Requirements'' @ [NL] @ ''FR01|Login|High|None'')
        ''January 01, 2026'' []) = []"
proof -
  have "filter is_table
     (generate (''4. Functional Requirements'' @ [NL] @ ''FR01|Login|High|None'')
        ''January 01, 2026'' []) = filter is_table []"
    by (rule conjunct2 [OF generate_adds_no_table])
  then show ?thesis by (simp only: filter.simps)
qed

lemma list_ex_filter: "list_ex P xs \<longleftrightarrow> filter P xs \<noteq> []"
  by (induction xs) auto

text \<open>
  C4 as stated fails: a text whose section 4 holds a well-formed requirement row is
  built into a heading and a paragraph with the row as its text, and the story holds no
  table.
\<close>

theorem no_table_for_section_4_counterexample:
  "process_section ''4''
       (section_text 4 (''4. Functional Requirements'' @ [NL] @ ''FR01|Login|High|None'')) []
     = [Paragraph ''4. Functional Requirements'' HeadingStyle,
        Paragraph ''FR01|Login|High|None'' NormalStyle,
        Spacer 2]
   \<and> \<not> list_ex is_table
        (generate (''4. Functional Requirements'' @ [NL] @ ''FR01|Login|High|None'')
           ''January 01, 2026'' [])"
proof
  show "process_section ''4''
       (section_text 4 (''4. Functional Requirements'' @ [NL] @ ''FR01|Login|High|None'')) []
     = [Paragraph ''4. Functional Requirements'' HeadingStyle,
        Paragraph ''FR01|Login|High|None'' NormalStyle,
        Spacer 2]"
    by code_simp
  show "\<not> list_ex is_table
        (generate (''4. Functional Requirements'' @ [NL] @ ''FR01|Login|High|None'')
           ''January 01, 2026'' [])"
    by (simp only: list_ex_filter generate_no_table filter.simps not_not)
qed

section \<open>Facts about the matchers\<close>

lemma lit_append [simp]: "lit p (p @ t) k = k t"
  by (simp add: lit_def)

lemma lit_None: "\<not> prefix p s \<Longrightarrow> lit p s k = None"
  by (simp add: lit_def)

lemma greedy_star_None_iff:
  "greedy_star P acc s k = None \<longleftrightarrow>
     (\<forall>n \<le> length (takeWhile P s). k (acc @ take n s) (drop n s) = None)"
proof (induction s arbitrary: acc)
  case Nil
  then show ?case by simp
next
  case (Cons c cs)
  show ?case
  proof (cases "P c")
    case True
    have "(\<forall>n \<le> Suc (length (takeWhile P cs)). k (acc @ take n (c # cs)) (drop n (c # cs)) = None)
      \<longleftrightarrow> k acc (c # cs) = None
          \<and> (\<forall>n \<le> length (takeWhile P cs). k ((acc @ [c]) @ take n cs) (drop n cs) = None)"
      (is "?L \<longleftrightarrow> ?R")
    proof
      assume l: ?L
      have "k acc (c # cs) = None" using l [rule_format, of 0] by simp
      moreover have "k ((acc @ [c]) @ take n cs) (drop n cs) = None"
        if "n \<le> length (takeWhile P cs)" for n
        using l [rule_format, of "Suc n"] that by simp
      ultimately show ?R by blast
    next
      assume r: ?R
      show ?L
      proof (intro allI impI)
        fix n assume "n \<le> Suc (length (takeWhile P cs))"
        then show "k (acc @ take n (c # cs)) (drop n (c # cs)) = None"
          using r by (cases n) auto
      qed
    qed
    with True Cons.IH [of "acc @ [c]"] show ?thesis
      by (auto split: option.splits)
  next
    case False
    then show ?thesis by simp
  qed
qed

lemma greedy_star_first:
  assumes "k (acc @ takeWhile P s) (dropWhile P s) = Some r"
  shows "greedy_star P acc s k = Some r"
  using assms
proof (induction s arbitrary: acc)
  case Nil
  then show ?case by simp
next
  case (Cons c cs)
  then show ?case by (cases "P c") simp_all
qed


lemma greedy_plus_first:
  assumes "s \<noteq> []" "P (hd s)" "k (takeWhile P s) (dropWhile P s) = Some r"
  shows "greedy_plus P s k = Some r"
proof -
  from assms(1) obtain c cs where s: "s = c # cs" by (cases s) auto
  with assms show ?thesis
    by (simp add: greedy_plus_def greedy_star_first)
qed

lemma greedy_plus_None: "s = [] \<or> \<not> P (hd s) \<Longrightarrow> greedy_plus P s k = None"
  by (cases s) (auto simp: greedy_plus_def)

lemma lazy_any_capture:
  assumes "B []"
  shows "lazy_star (\<lambda>c. True) acc t (\<lambda>g rest. if B rest then Some (f g) else None)
         = Some (f (acc @ capture_until B t))"
  using assms by (induction t arbitrary: acc) simp_all

lemma capture_until_split:
  assumes "B []"
  shows "\<exists>rest. t = capture_until B t @ rest \<and> B rest"
  using assms by (induction t) auto

lemma capture_until_first:
  "j < length (capture_until B t) \<Longrightarrow> \<not> B (drop j t)"
proof (induction t arbitrary: j)
  case Nil
  then show ?case by simp
next
  case (Cons c cs)
  then show ?case by (cases j) (auto split: if_splits)
qed




lemma re_search_None_iff:
  "re_search m s = None \<longleftrightarrow> (\<forall>j \<le> length s. m (drop j s) = None)"
proof (induction s)
  case Nil
  then show ?case by simp
next
  case (Cons c cs)
  have "(\<forall>j \<le> Suc (length cs). m (drop j (c # cs)) = None)
      \<longleftrightarrow> m (c # cs) = None \<and> (\<forall>j \<le> length cs. m (drop j cs) = None)"
    (is "?L \<longleftrightarrow> ?R")
  proof
    assume l: ?L
    have "m (c # cs) = None" using l [rule_format, of 0] by simp
    moreover have "m (drop j cs) = None" if "j \<le> length cs" for j
      using l [rule_format, of "Suc j"] that by simp
    ultimately show ?R by blast
  next
    assume r: ?R
    show ?L
    proof (intro allI impI)
      fix j assume "j \<le> Suc (length cs)"
      then show "m (drop j (c # cs)) = None" using r by (cases j) auto
    qed
  qed
  with Cons show ?case by (auto split: option.splits)
qed

lemma re_search_SomeE:
  assumes "re_search m s = Some r"
  obtains A S where "s = A @ S" "m S = Some r" "\<forall>j < length A. m (drop j A @ S) = None"
  using assms
proof (induction s arbitrary: thesis)
  case Nil
  from Nil(1) [of "[]" "[]"] Nil(2) show ?case by simp
next
  case (Cons c cs)
  show ?case
  proof (cases "m (c # cs)")
    case (Some a)
    with Cons.prems(2) have "m (c # cs) = Some r" by simp
    then show ?thesis using Cons.prems(1) [of "[]" "c # cs"] by simp
  next
    case None
    with Cons.prems(2) have g: "re_search m cs = Some r" by simp
    show ?thesis
    proof (rule Cons.IH [OF _ g])
      fix A S assume a: "cs = A @ S" "m S = Some r" "\<forall>j<length A. m (drop j A @ S) = None"
      have "\<forall>j<length (c # A). m (drop j (c # A) @ S) = None"
      proof (intro allI impI)
        fix j assume "j < length (c # A)"
        then show "m (drop j (c # A) @ S) = None"
          using a None by (cases j) auto
      qed
      with a show thesis using Cons.prems(1) [of "c # A" S] by simp
    qed
  qed
qed

lemma lazy_star_here: "k acc R = Some r \<Longrightarrow> lazy_star P acc R k = Some r"
  by (cases R) simp_all

lemma lazy_star_skip:
  assumes "\<forall>c \<in> set b. P c" "\<forall>j < length b. k (acc @ take j b) (drop j b @ R) = None"
  shows "lazy_star P acc (b @ R) k = lazy_star P (acc @ b) R k"
  using assms
proof (induction b arbitrary: acc)
  case Nil
  then show ?case by simp
next
  case (Cons c b)
  have 0: "k acc ((c # b) @ R) = None" using Cons.prems(2) [rule_format, of 0] by simp
  have "k ((acc @ [c]) @ take j b) (drop j b @ R) = None" if "j < length b" for j
    using Cons.prems(2) [rule_format, of "Suc j"] that by simp
  then have "lazy_star P (acc @ [c]) (b @ R) k = lazy_star P ((acc @ [c]) @ b) R k"
    using Cons.prems(1) by (intro Cons.IH) simp_all
  with 0 Cons.prems(1) show ?case by simp
qed

lemma marker_iff:
  "marker n s \<longleftrightarrow> (\<exists>c r. s = str_nat n @ ''.'' @ c # r \<and> isspace c)"
proof
  assume "marker n s"
  then obtain y where "lit (str_nat n @ ''.'') s (\<lambda>r. greedy_plus isspace r (\<lambda>w r. Some ())) = Some y"
    unfolding marker_def by blast
  then obtain t where t: "s = (str_nat n @ ''.'') @ t" "greedy_plus isspace t (\<lambda>w r. Some ()) = Some y"
    by (rule lit_SomeE)
  from t(2) have "t \<noteq> [] \<and> isspace (hd t)"
    by (cases t) (auto simp: greedy_plus_def split: if_splits)
  then obtain c r where "t = c # r" "isspace c" by (cases t) auto
  with t(1) show "\<exists>c r. s = str_nat n @ ''.'' @ c # r \<and> isspace c" by simp
next
  assume "\<exists>c r. s = str_nat n @ ''.'' @ c # r \<and> isspace c"
  then obtain c r where s: "s = (str_nat n @ ''.'') @ c # r" and c: "isspace c" by auto
  have "greedy_plus isspace (c # r) (\<lambda>w r. Some ()) = Some ()"
    using c by (intro greedy_plus_first) simp_all
  then show "marker n s"
    unfolding marker_def s lit_append by simp
qed

lemma marker_append: "marker n s \<Longrightarrow> marker n (s @ t)"
  unfolding marker_iff by auto






lemma greedy_plus_total:
  assumes "\<And>w r. k w r \<noteq> None"
  shows "greedy_plus P s k =
     (if s \<noteq> [] \<and> P (hd s) then k (takeWhile P s) (dropWhile P s) else None)"
proof (cases "s \<noteq> [] \<and> P (hd s)")
  case True
  obtain y where y: "k (takeWhile P s) (dropWhile P s) = Some y"
    using assms [of "takeWhile P s" "dropWhile P s"] by blast
  with True have "greedy_plus P s k = Some y" by (intro greedy_plus_first) simp_all
  with True y show ?thesis by simp
next
  case False
  then have "greedy_plus P s k = None" by (intro greedy_plus_None) simp
  with False show ?thesis by auto
qed

lemma marker_eq:
  "marker n s \<longleftrightarrow>
     prefix (str_nat n @ ''.'') s
     \<and> drop (length (str_nat n @ ''.'')) s \<noteq> []
     \<and> isspace (hd (drop (length (str_nat n @ ''.'')) s))"
proof -
  have "greedy_plus isspace r (\<lambda>w r. Some ()) =
      (if r \<noteq> [] \<and> isspace (hd r) then Some () else None)" for r
    by (subst greedy_plus_total) simp_all
  then show ?thesis
    by (simp add: marker_def lit_def)
qed

lemma simple_tail:
  "lazy_star (\<lambda>c. True) [] t (\<lambda>g rest.
       if marker n rest \<or> at_dollar rest then Some (f g) else None)
   = Some (f (capture_until (boundary n) t))"
proof -
  have "lazy_star (\<lambda>c. True) [] t (\<lambda>g rest. if boundary n rest then Some (f g) else None)
        = Some (f ([] @ capture_until (boundary n) t))"
    by (rule lazy_any_capture) (simp add: boundary_def at_dollar_def)
  then show ?thesis by (simp add: boundary_def)
qed

lemma simple_pattern_eq:
  "simple_pattern i s =
     (if marker i s then
        Some (str_nat i @ ''.'' @ takeWhile isspace (drop (length (str_nat i @ ''.'')) s)
              @ capture_until (boundary (i + 1))
                  (dropWhile isspace (drop (length (str_nat i @ ''.'')) s)))
      else None)"
proof -
  define K where "K = (\<lambda>w r.
         lazy_star (\<lambda>c. True) [] r (\<lambda>g rest.
           if marker (i + 1) rest \<or> at_dollar rest then Some (str_nat i @ ''.'' @ w @ g)
           else None))"
  have K: "K w r = Some (str_nat i @ ''.'' @ w @ capture_until (boundary (i + 1)) r)" for w r
    unfolding K_def by (rule simple_tail)
  have gp: "greedy_plus isspace r K =
     (if r \<noteq> [] \<and> isspace (hd r) then K (takeWhile isspace r) (dropWhile isspace r) else None)"
    for r
    by (rule greedy_plus_total) (simp add: K)
  have "simple_pattern i s = lit (str_nat i @ ''.'') s (\<lambda>r. greedy_plus isspace r K)"
    unfolding simple_pattern_def K_def ..
  then show ?thesis
    unfolding marker_eq by (simp add: lit_def gp K)
qed

lemma title_pattern_match:
  assumes "T \<noteq> []" "\<not> isspace (hd T)" "NL \<notin> set T" "g = [] \<or> hd g = NL"
  shows "title_pattern num (num @ ''. '' @ T @ g) = Some T"
proof -
  let ?k = "\<lambda>g rest. if prefix [NL] rest \<or> at_dollar rest then Some g else None"
  from assms(1) obtain a T' where T: "T = a # T'" by (cases T) auto
  with assms(2) have a: "\<not> isspace a" by simp
  have "title_pattern num (num @ ''. '' @ T @ g)
        = greedy_plus isspace (CHR '' '' # T @ g) (\<lambda>w r. lazy_star (\<lambda>c. c \<noteq> NL) [] r ?k)"
    unfolding title_pattern_def using lit_append [of "num @ ''.''" "CHR '' '' # T @ g"] by simp
  also have "\<dots> = lazy_star (\<lambda>c. c \<noteq> NL) [] (T @ g) ?k"
    using a by (simp add: greedy_plus_def T)
  also have "\<dots> = lazy_star (\<lambda>c. c \<noteq> NL) ([] @ T) g ?k"
  proof (rule lazy_star_skip)
    show "\<forall>c \<in> set T. c \<noteq> NL" using assms(3) by auto
    show "\<forall>j < length T. ?k ([] @ take j T) (drop j T @ g) = None"
    proof (intro allI impI)
      fix j assume j: "j < length T"
      then obtain c r where d: "drop j T = c # r" by (cases "drop j T") auto
      then have "c \<in> set T" by (metis in_set_dropD list.set_intros(1))
      with assms(3) have "c \<noteq> NL" by auto
      then show "?k ([] @ take j T) (drop j T @ g) = None"
        by (simp add: d at_dollar_def)
    qed
  qed
  also have "\<dots> = Some T"
    using assms(4) by (intro lazy_star_here) (cases g; auto simp: at_dollar_def)
  finally show ?thesis .
qed

section \<open>Properties of the section extraction\<close>

lemma ordinal_cases:
  assumes "i \<in> {1..16::nat}"
  shows "i \<in> set [1, 2, 3, 4, 5, 6, 7, 8, 9, 10, 11, 12, 13, 14, 15, 16]"
proof -
  from assms have "i \<in> set [1..<17]" by simp
  then show ?thesis unfolding upt_sections .
qed

lemma default_title_facts:
  assumes "i \<in> {1..16::nat}"
  shows "get_default_section_title (str_nat i) \<noteq> []"
    and "\<not> isspace (hd (get_default_section_title (str_nat i)))"
    and "NL \<notin> set (get_default_section_title (str_nat i))"
    and "NL \<notin> set (str_nat i)"
  using ordinal_cases [OF assms]
  by (auto simp: str_nat_vals get_default_section_title_def titles_def isspace_def)


lemma content_text_lines:
  assumes "NL \<notin> set h"
  shows "content_text (h @ NL # g) = Some (strip g)" and "content_text h = None"
proof -
  have a: "\<forall>c \<in> set h. c \<noteq> NL" using assms by auto
  have "dropWhile (\<lambda>c. c \<noteq> NL) (h @ NL # g) = NL # g"
    using a by (simp add: dropWhile_append2)
  then show "content_text (h @ NL # g) = Some (strip g)"
    by (simp add: content_text_def split_first_line_def)
  show "content_text h = None"
    using assms by (simp add: content_text_def split_first_line_def)
qed

lemma strip_no_content: "strip (NL # no_content) = no_content"
  by code_simp

lemma placeholder_section:
  assumes "i \<in> {1..16::nat}"
  shows "section_title_of (str_nat i)
           (str_nat i @ ''. '' @ get_default_section_title (str_nat i) @ [NL, NL] @ no_content)
         = get_default_section_title (str_nat i)"
    and "content_text
           (str_nat i @ ''. '' @ get_default_section_title (str_nat i) @ [NL, NL] @ no_content)
         = Some no_content"
proof -
  note f = default_title_facts [OF assms]
  have "title_pattern (str_nat i)
          (str_nat i @ ''. '' @ get_default_section_title (str_nat i) @ ([NL, NL] @ no_content))
        = Some (get_default_section_title (str_nat i))"
    using f(1,2,3) by (rule title_pattern_match) simp
  then show "section_title_of (str_nat i)
           (str_nat i @ ''. '' @ get_default_section_title (str_nat i) @ [NL, NL] @ no_content)
         = get_default_section_title (str_nat i)"
    by (simp add: section_title_of_def)
  have "NL \<notin> set (str_nat i @ ''. '' @ get_default_section_title (str_nat i))"
    using f(3,4) by simp
  from content_text_lines(1) [OF this, of "NL # no_content"]
  show "content_text
           (str_nat i @ ''. '' @ get_default_section_title (str_nat i) @ [NL, NL] @ no_content)
         = Some no_content"
    by (simp add: strip_no_content)
qed

text \<open>
  C1. For every input the dictionary of sections has exactly the sixteen keys \<open>1\<close> to
  \<open>16\<close>, each once, and the entry of ordinal \<open>i\<close> is the text the first loop keeps for
  it. For every ordinal on which neither the strict nor the loose pattern matches, the
  section has the canonical default title, and its body is the literal
  \<open>No content provided for this section.\<close>
\<close>

theorem sixteen_sections:
  "map fst (find_sections content) = map str_nat [1..<17]
   \<and> distinct (map fst (find_sections content))
   \<and> (\<forall>i \<in> {1..16}.
         map_of (find_sections content) (str_nat i) = Some (section_text i content))
   \<and> (\<forall>i \<in> {1..16}.
         re_search (strict_pattern i (get_default_section_title (str_nat i))) content = None
         \<and> re_search (simple_pattern i) content = None
         \<longrightarrow> section_title i content = get_default_section_title (str_nat i)
             \<and> section_body i content = no_content)"
proof (intro conjI ballI impI)
  show k: "map fst (find_sections content) = map str_nat [1..<17]"
    by (simp add: find_sections_eq comp_def)
  show "distinct (map fst (find_sections content))"
    unfolding k by (rule distinct_keys)
  show "map_of (find_sections content) (str_nat i) = Some (section_text i content)"
    if "i \<in> {1..16}" for i
    using that by (intro find_sections_lookup) simp
next
  fix i :: nat
  assume i: "i \<in> {1..16}"
    and n: "re_search (strict_pattern i (get_default_section_title (str_nat i))) content = None
         \<and> re_search (simple_pattern i) content = None"
  have t: "section_text i content
      = str_nat i @ ''. '' @ get_default_section_title (str_nat i) @ [NL, NL] @ no_content"
    using n by (simp add: section_text_def Let_def)
  show "section_title i content = get_default_section_title (str_nat i)"
    unfolding section_title_def t by (rule placeholder_section(1) [OF i])
  show "section_body i content = no_content"
    unfolding section_body_def t placeholder_section(2) [OF i] by simp
qed

theorem sixteen_sections_witness:
  "length (find_sections ''no sections here'') = 16
   \<and> map_of (find_sections ''no sections here'') ''3''
       = Some (section_text 3 ''no sections here'')
   \<and> re_search (strict_pattern 3 (get_default_section_title (str_nat 3))) ''no sections here'' = None
   \<and> re_search (simple_pattern 3) ''no sections here'' = None
   \<and> section_title 3 ''no sections here'' = ''User Personas and Roles''
   \<and> section_body 3 ''no sections here'' = ''No content provided for this section.''"
proof -
  note t = sixteen_sections [of "''no sections here''"]
  from t have "length (map fst (find_sections ''no sections here'')) = length (map str_nat [1..<17])"
    by (simp only:)
  then have k: "length (find_sections ''no sections here'') = 16"
    by simp
  have s: "re_search (strict_pattern 3 (get_default_section_title (str_nat 3))) ''no sections here'' = None"
    by code_simp
  have l: "re_search (simple_pattern 3) ''no sections here'' = None"
    by code_simp
  have d: "get_default_section_title (str_nat 3) = ''User Personas and Roles''"
    by code_simp
  have i: "(3::nat) \<in> {1..16}" by simp
  from t i have "map_of (find_sections ''no sections here'') (str_nat 3)
       = Some (section_text 3 ''no sections here'')"
    by blast
  then have m: "map_of (find_sections ''no sections here'') ''3''
       = Some (section_text 3 ''no sections here'')"
    by (simp only: str_nat_vals)
  from t i s l have "section_title 3 ''no sections here'' = get_default_section_title (str_nat 3)
             \<and> section_body 3 ''no sections here'' = no_content"
    by blast
  with k m s l d show ?thesis by (simp add: no_content_def)
qed

text \<open>
  C6. The strict pattern of section \<open>i\<close> looks ahead for ordinal \<open>i+1\<close>, a period and
  whitespace only, not for the header of section \<open>i+1\<close>. In the text below section 1
  mentions \<open>2. x\<close> before the header \<open>2. Goals and Objectives\<close>: the strict capture of
  section 1 stops before the mention, the body of section 1 is \<open>See\<close>, that of section 2 is
  \<open>foo\<close>, and the text from the mention to the header is in no section. The pattern of
  section 1 in \<open>extract_sections\<close> looks ahead for the start of the next header and matches
  up to it.
\<close>

theorem strict_capture_stops_at_mention:
  "re_search (strict_pattern 1 (get_default_section_title (str_nat 1)))
     (''1. Introduction'' @ [NL] @ ''See 2. x'' @ [NL] @ ''2. Goals and Objectives'' @ [NL] @ ''foo'')
   = Some ([NL] @ ''See '')
   \<and> get_default_section_title (str_nat 2) = ''Goals and Objectives''
   \<and> section_text 1
        (''1. Introduction'' @ [NL] @ ''See 2. x'' @ [NL] @ ''2. Goals and Objectives'' @ [NL] @ ''foo'')
     = ''1. Introduction'' @ [NL] @ ''See ''
   \<and> section_body 1
        (''1. Introduction'' @ [NL] @ ''See 2. x'' @ [NL] @ ''2. Goals and Objectives'' @ [NL] @ ''foo'')
     = ''See''
   \<and> section_body 2
        (''1. Introduction'' @ [NL] @ ''See 2. x'' @ [NL] @ ''2. Goals and Objectives'' @ [NL] @ ''foo'')
     = ''foo''
   \<and> re_search first_section_pattern
        (''1. Introduction'' @ [NL] @ ''See 2. x'' @ [NL] @ ''2. Goals and Objectives'' @ [NL] @ ''foo'')
     = Some (''1. Introduction'' @ [NL] @ ''See 2. x'' @ [NL])"
  by code_simp

text \<open>
  C8. The loop builds the lookahead of section 16 from ordinal 17 like any other, so the
  capture of section 16 stops at a \<open>17.\<close> followed by whitespace: in the text below the
  section text ends before it and the body is \<open>See\<close>, while the pattern of section 16 in
  \<open>extract_sections\<close> has no such lookahead and matches to the end of the text.
\<close>

theorem last_section_stops_at_marker_17:
  "section_text 16 (''16. Points Requiring Further Clarification'' @ [NL] @ ''See 17. x and more'')
     = ''16. Points Requiring Further Clarification'' @ [NL] @ ''See ''
   \<and> section_body 16 (''16. Points Requiring Further Clarification'' @ [NL] @ ''See 17. x and more'')
     = ''See''
   \<and> re_search last_section_pattern
        (''16. Points Requiring Further Clarification'' @ [NL] @ ''See 17. x and more'')
     = Some (''16. Points Requiring Further Clarification'' @ [NL] @ ''See 17. x and more'')"
  by code_simp

section \<open>Properties of the title extraction\<close>

lemma rest_of_line:
  "greedy_plus (\<lambda>c. c \<noteq> NL) r (\<lambda>g rest. Some g) =
     (if r \<noteq> [] \<and> hd r \<noteq> NL then Some (takeWhile (\<lambda>c. c \<noteq> NL) r) else None)"
  by (rule greedy_plus_total) simp

lemma skip_space_line_None:
  "greedy_star isspace acc r (\<lambda>w r. greedy_plus (\<lambda>c. c \<noteq> NL) r (\<lambda>g rest. Some g)) = None
   \<longleftrightarrow> set r \<subseteq> {NL}"
proof (induction r arbitrary: acc)
  case Nil
  then show ?case by (simp add: rest_of_line)
next
  case (Cons c cs)
  show ?case
  proof (cases "isspace c")
    case True
    with Cons show ?thesis by (auto simp: rest_of_line split: option.splits)
  next
    case False
    then have "c \<noteq> NL" by auto
    with False show ?thesis by (simp add: rest_of_line)
  qed
qed

lemma opt_None_iff:
  "opt x r k = None \<longleftrightarrow> k r = None \<and> (r \<noteq> [] \<and> hd r = x \<longrightarrow> k (tl r) = None)"
  by (cases r) (auto simp: opt_def split: option.splits)

lemma project_name_pattern_None:
  "project_name_pattern s = None \<longleftrightarrow>
     \<not> prefix title_phrase s \<or> set (drop (length title_phrase) s) \<subseteq> {NL}"
proof (cases "prefix title_phrase s")
  case False
  then show ?thesis by (simp add: project_name_pattern_def title_phrase_def lit_def)
next
  case True
  then obtain r where s: "s = title_phrase @ r" by (rule prefixE)
  have "project_name_pattern s = opt (CHR '':'') r (\<lambda>r.
         greedy_star isspace [] r (\<lambda>w r.
           greedy_plus (\<lambda>c. c \<noteq> NL) r (\<lambda>g rest. Some g)))"
    unfolding project_name_pattern_def s title_phrase_def [symmetric] lit_append ..
  also have "\<dots> = None \<longleftrightarrow> set r \<subseteq> {NL}"
    unfolding opt_None_iff skip_space_line_None by (cases r) auto
  finally show ?thesis using True by (simp add: s)
qed

lemma list_all_NL: "list_all (\<lambda>c. c = NL) r \<longleftrightarrow> set r \<subseteq> {NL}"
  by (auto simp: list_all_iff)

lemma strip_all_space:
  assumes "\<forall>c \<in> set g. isspace c"
  shows "strip g = []"
proof -
  from assms have d: "dropWhile isspace g = []" by (induction g) simp_all
  show ?thesis unfolding strip_def d by simp
qed

lemma line_value:
  assumes "greedy_star isspace [] t (\<lambda>w r. greedy_plus (\<lambda>c. c \<noteq> NL) r (\<lambda>g rest. Some g)) = Some g"
  shows "strip g = strip (takeWhile (\<lambda>c. c \<noteq> NL) (dropWhile isspace t))"
proof (cases "dropWhile isspace t = []")
  case False
  then obtain a r where d: "dropWhile isspace t = a # r" by (cases "dropWhile isspace t") auto
  then have "\<not> isspace a" by (metis hd_dropWhile list.sel(1) list.distinct(1))
  then have "a \<noteq> NL" by auto
  then have "greedy_plus (\<lambda>c. c \<noteq> NL) (dropWhile isspace t) (\<lambda>g rest. Some g)
      = Some (takeWhile (\<lambda>c. c \<noteq> NL) (dropWhile isspace t))"
    by (simp add: rest_of_line d)
  then have "greedy_star isspace [] t (\<lambda>w r. greedy_plus (\<lambda>c. c \<noteq> NL) r (\<lambda>g rest. Some g))
      = Some (takeWhile (\<lambda>c. c \<noteq> NL) (dropWhile isspace t))"
    by (intro greedy_star_first) simp
  with assms show ?thesis by simp
next
  case True
  then have ws: "\<forall>c \<in> set t. isspace c" by simp
  from assms obtain w t' where t: "t = w @ t'"
    and k: "greedy_plus (\<lambda>c. c \<noteq> NL) t' (\<lambda>g rest. Some g) = Some g"
    by (rule greedy_star_SomeE) simp
  from k have "g = takeWhile (\<lambda>c. c \<noteq> NL) t'"
    by (simp add: rest_of_line split: if_splits)
  then have "set g \<subseteq> set t" using t by (auto dest: set_takeWhileD)
  with ws have "\<forall>c \<in> set g. isspace c" by blast
  then have "strip g = []" by (rule strip_all_space)
  moreover have "strip (takeWhile (\<lambda>c. c \<noteq> NL) (dropWhile isspace t)) = []"
    unfolding True by (simp add: strip_def)
  ultimately show ?thesis by simp
qed

lemma opt_colon:
  fixes k :: "string \<Rightarrow> 'a option"
  assumes "\<And>r. k r = None \<longleftrightarrow> list_all (\<lambda>c. c = NL) r"
  shows "opt (CHR '':'') r k = k (after_colon r)"
proof (cases r)
  case Nil
  then show ?thesis by (simp add: opt_def after_colon_def)
next
  case (Cons c r')
  show ?thesis
  proof (cases "c = CHR '':''")
    case False
    then show ?thesis by (simp add: opt_def after_colon_def Cons)
  next
    case True
    show ?thesis
    proof (cases "k r'")
      case None
      then have "list_all (\<lambda>c. c = NL) r'" by (simp only: assms)
      then have "after_colon r = r" by (simp add: after_colon_def Cons)
      with None True show ?thesis by (simp add: opt_def Cons)
    next
      case (Some g)
      then have "\<not> list_all (\<lambda>c. c = NL) r'" using assms [of r'] by simp
      then have "after_colon r = r'" using True by (simp add: after_colon_def Cons)
      with Some True show ?thesis by (simp add: opt_def Cons)
    qed
  qed
qed

lemma project_name_pattern_line:
  "project_name_pattern (title_phrase @ r) =
     greedy_star isspace [] (after_colon r)
       (\<lambda>w r. greedy_plus (\<lambda>c. c \<noteq> NL) r (\<lambda>g rest. Some g))"
proof -
  let ?k = "\<lambda>r. greedy_star isspace [] r (\<lambda>w r.
           greedy_plus (\<lambda>c. c \<noteq> NL) r (\<lambda>g rest. Some g))"
  have p: "project_name_pattern (title_phrase @ r) = opt (CHR '':'') r ?k"
    unfolding project_name_pattern_def title_phrase_def [symmetric] lit_append ..
  have "opt (CHR '':'') r ?k = ?k (after_colon r)"
    by (rule opt_colon) (simp only: skip_space_line_None list_all_NL)
  with p show ?thesis by simp
qed

lemma phrase_no_overlap:
  assumes "set r \<subseteq> {NL}" "NL \<notin> set p" "p \<noteq> []"
  shows "\<not> prefix p (drop (Suc j) (p @ r))"
proof
  assume a: "prefix p (drop (Suc j) (p @ r))"
  have d: "drop (Suc j) (p @ r) = drop (Suc j) p @ drop (Suc j - length p) r" by simp
  from a have "prefix p (drop (Suc j) p) \<or>
      (\<exists>us. p = drop (Suc j) p @ us \<and> prefix us (drop (Suc j - length p) r))"
    unfolding d prefix_append .
  then show False
  proof
    assume "prefix p (drop (Suc j) p)"
    then have "length p \<le> length (drop (Suc j) p)" by (rule prefix_length_le)
    moreover have "length (drop (Suc j) p) < length p" using assms(3) by (cases p) simp_all
    ultimately show False by linarith
  next
    assume "\<exists>us. p = drop (Suc j) p @ us \<and> prefix us (drop (Suc j - length p) r)"
    then obtain us where u: "p = drop (Suc j) p @ us"
      and v: "prefix us (drop (Suc j - length p) r)" by blast
    have "us \<noteq> []"
    proof
      assume "us = []"
      with u have "length p = length (drop (Suc j) p)" by simp
      moreover have "length (drop (Suc j) p) < length p" using assms(3) by (cases p) simp_all
      ultimately show False by linarith
    qed
    then have h: "hd us \<in> set us" by simp
    from v have "set us \<subseteq> set r" by (auto dest: set_mono_prefix in_set_dropD)
    with h assms(1) have "hd us = NL" by blast
    moreover from h u have "hd us \<in> set p" by (metis Un_iff set_append)
    ultimately show False using assms(2) by simp
  qed
qed

lemma title_phrase_no_NL: "NL \<notin> set title_phrase \<and> title_phrase \<noteq> []"
  by (simp add: title_phrase_def)

lemma search_after_first:
  "re_search project_name_pattern content =
     (case after_first title_phrase content of
        None \<Rightarrow> None
      | Some r \<Rightarrow> project_name_pattern (title_phrase @ r))"
proof (induction content)
  case Nil
  have "\<not> prefix title_phrase []" using title_phrase_no_NL by simp
  then have "project_name_pattern [] = None" by (simp add: project_name_pattern_None)
  then show ?case using title_phrase_no_NL by simp
next
  case (Cons c cs)
  show ?case
  proof (cases "prefix title_phrase (c # cs)")
    case False
    then have "project_name_pattern (c # cs) = None" by (simp add: project_name_pattern_None)
    with False Cons show ?thesis by simp
  next
    case True
    then obtain r where s: "c # cs = title_phrase @ r" by (rule prefixE)
    have "drop (length title_phrase) (c # cs) = r" unfolding s by simp
    then have a: "after_first title_phrase (c # cs) = Some r"
      using True by simp
    show ?thesis
    proof (cases "project_name_pattern (c # cs)")
      case (Some g)
      then show ?thesis using a by (simp add: s [symmetric])
    next
      case None
      then have r: "set r \<subseteq> {NL}" using True by (simp add: project_name_pattern_None s)
      have "project_name_pattern (drop j cs) = None" for j
      proof -
        have "drop j cs = drop (Suc j) (title_phrase @ r)"
          by (simp add: s [symmetric])
        then have "\<not> prefix title_phrase (drop j cs)"
          using phrase_no_overlap [OF r, of title_phrase j] title_phrase_no_NL by simp
        then show ?thesis by (simp add: project_name_pattern_None)
      qed
      then have "re_search project_name_pattern cs = None"
        by (simp add: re_search_None_iff)
      with None a show ?thesis by (simp add: s [symmetric])
    qed
  qed
qed

text \<open>
  C5, amended. For every input text the result is fixed by the first occurrence of the
  phrase \<open>Product Requirements Document\<close>. When the phrase does not occur, or nothing but
  line feeds follows it, the result is the default literal. Otherwise a colon right
  after the phrase is skipped, unless nothing but line feeds follows the colon; then all
  whitespace, line feeds included, is skipped, and the result is the rest of the line
  reached there, trimmed. So the title is the one on the phrase's own line when there is
  one and otherwise comes from the next line that is not blank; the result is a lone
  colon when only line feeds follow the colon, and empty when only whitespace remains.
\<close>

theorem project_name_every_input:
  "extract_project_name content = project_name_spec content"
proof (cases "after_first title_phrase content")
  case None
  then show ?thesis
    by (simp add: extract_project_name_def project_name_spec_def search_after_first)
next
  case (Some r)
  let ?k = "\<lambda>r. greedy_star isspace [] r (\<lambda>w r.
           greedy_plus (\<lambda>c. c \<noteq> NL) r (\<lambda>g rest. Some g))"
  have m: "re_search project_name_pattern content = ?k (after_colon r)"
    by (simp add: search_after_first Some project_name_pattern_line)
  show ?thesis
  proof (cases "list_all (\<lambda>c. c = NL) r")
    case True
    then have "after_colon r = r" by (cases r) (auto simp: after_colon_def)
    with True have "?k (after_colon r) = None"
      by (simp only: skip_space_line_None list_all_NL)
    with True Some show ?thesis
      by (simp add: extract_project_name_def project_name_spec_def m)
  next
    case False
    have "?k (after_colon r) \<noteq> None"
    proof
      assume "?k (after_colon r) = None"
      then have "list_all (\<lambda>c. c = NL) (after_colon r)"
        by (simp only: skip_space_line_None list_all_NL)
      with False show False by (cases r) (auto simp: after_colon_def split: if_splits)
    qed
    then obtain g where g: "?k (after_colon r) = Some g" by blast
    then have "strip g = strip (takeWhile (\<lambda>c. c \<noteq> NL) (dropWhile isspace (after_colon r)))"
      by (rule line_value)
    with g False Some show ?thesis
      by (simp add: extract_project_name_def project_name_spec_def m)
  qed
qed


theorem project_name_every_input_witness:
  "extract_project_name (''Product Requirements Document: Acme Portal'' @ [NL] @ ''...'')
     = ''Acme Portal''
   \<and> extract_project_name ''no such header'' = ''Project Requirements Document''
   \<and> extract_project_name (''Product Requirements Document:'' @ [NL]) = '':''
   \<and> extract_project_name (''Product Requirements Document: '' @ [NL]) = []"
proof -
  have "project_name_spec (''Product Requirements Document: Acme Portal'' @ [NL] @ ''...'')
     = ''Acme Portal''"
    by code_simp
  moreover have "project_name_spec ''no such header'' = ''Project Requirements Document''"
    by code_simp
  moreover have "project_name_spec (''Product Requirements Document:'' @ [NL]) = '':''"
    by code_simp
  moreover have "project_name_spec (''Product Requirements Document: '' @ [NL]) = []"
    by code_simp
  ultimately show ?thesis unfolding project_name_every_input by blast
qed

text \<open>
  C5 as stated fails: the line that holds the phrase has no title after it, so no line
  has the phrase followed by a title, yet the result is not the default: the pattern's
  whitespace runs over the line feed and the next line is returned.
\<close>

theorem project_name_next_line_counterexample:
  "extract_project_name (''Product Requirements Document'' @ [NL] @ ''abc'') = ''abc''"
  by code_simp

section \<open>Well-formed inputs\<close>


lemma period_not_digit [simp]: "\<not> isdigit (CHR ''.'')"
  by (simp add: isdigit_def)






lemma no_match_in_Nil [simp]: "no_match_in m [] Y"
  by (simp add: no_match_in_def)































end
